theory Spec2Isabelle
  imports Main "HOL-Library.Word"
begin

unbundle bit_operations_syntax

section \<open>Data model\<close>

text \<open>
  Python integers are unbounded, so addresses, counts and checksums are \<open>int\<close>.
  A \<open>bytes\<close> value is a list of 8-bit words.  A tag is an \<open>IntEnum\<close> member
  (an integer) for Intel HEX and Motorola S-record, and \<open>None\<close> for MOS Technology.
  Exceptions are values of type \<open>error\<close>; a function that can raise returns
  \<open>error + 'a\<close>.  A generator is modelled by the list that \<open>list(...)\<close> builds
  from it, so an exception raised while iterating is the result \<open>Inl\<close>.
\<close>

type_synonym byte = "8 word"

type_synonym block = "int \<times> byte list"

datatype error =
    ValueError string
  | TypeError
  | IndexError
  | StructError
  | AssertionError

record hexrecord =
  address :: int
  tag :: "int option"
  data :: "byte list"
  count :: int
  checksum :: "int option"

text \<open>The \<open>checksum\<close> argument of the constructors: \<open>Ellipsis\<close> (compute it now),
  or a given value, which may be \<open>None\<close>.\<close>

datatype checksum_arg = Ellipsis | Given "int option"

section \<open>Helpers of \<open>hexrec.utils\<close>\<close>

definition sum_bytes :: "byte list \<Rightarrow> int" where
  \<comment> \<open>Modelled from the spec: \<open>utils.sum_bytes\<close> is not among the sources; the sum of
     the byte values (section 4.2, "sum(data)").\<close>
  "sum_bytes bs = sum_list (map uint bs)"

definition do_overlap :: "int \<Rightarrow> int \<Rightarrow> int \<Rightarrow> int \<Rightarrow> bool" where
  \<comment> \<open>Modelled from the spec: \<open>utils.do_overlap\<close> is not among the sources; the
     overlap test of two ranges given by start and exclusive end (section 2, item 1).\<close>
  "do_overlap start1 endex1 start2 endex2 = (start2 < endex1 \<and> start1 < endex2)"

function chop_windows :: "'a list \<Rightarrow> nat \<Rightarrow> 'a list list" where
  "chop_windows xs w =
     (if xs = [] \<or> w = 0 then [] else take w xs # chop_windows (drop w xs) w)"
  by pat_completeness auto
termination
  by (relation "measure (\<lambda>(xs, w). length xs)") auto

declare chop_windows.simps [simp del]

definition chop :: "'a list \<Rightarrow> int \<Rightarrow> int \<Rightarrow> 'a list list" where
  \<comment> \<open>Modelled from the spec: \<open>utils.chop\<close> is not among the sources.  It cuts a
     buffer into chunks of \<open>window\<close> items (section 4.1); with a non-zero alignment
     base the first chunk is shortened so that every later chunk starts on a multiple
     of \<open>window\<close> ("optionally address-aligning chunk boundaries").\<close>
  "chop vector window align_base =
     (if align_base \<noteq> 0
      then (let offset = nat ((- align_base) mod window)
            in take offset vector # chop_windows (drop offset vector) (nat window))
      else chop_windows vector (nat window))"

text \<open>Python slices \<open>xs[:p]\<close> and \<open>xs[p:]\<close>; a negative index counts from the end.\<close>

definition slice_to :: "'a list \<Rightarrow> int \<Rightarrow> 'a list" where
  "slice_to xs p = (if p < 0 then take (nat (int (length xs) + p)) xs else take (nat p) xs)"

definition slice_from :: "'a list \<Rightarrow> int \<Rightarrow> 'a list" where
  "slice_from xs p = (if p < 0 then drop (nat (int (length xs) + p)) xs else drop (nat p) xs)"

text \<open>Indexing a tuple: a negative index counts from the end, an index out of range
  raises \<open>IndexError\<close>.\<close>

definition tuple_get :: "'a list \<Rightarrow> int \<Rightarrow> error + 'a" where
  "tuple_get xs i =
     (if 0 \<le> i \<and> i < int (length xs) then Inr (xs ! nat i)
      else if i < 0 \<and> - int (length xs) \<le> i then Inr (xs ! nat (int (length xs) + i))
      else Inl IndexError)"

text \<open>\<open>struct.pack\<close> with the formats the sources use.  A value out of the range of
  its field raises \<open>struct.error\<close>.\<close>

definition pack_be16 :: "int \<Rightarrow> error + byte list" where
  \<comment> \<open>\<open>struct.pack('>H', v)\<close>\<close>
  "pack_be16 v =
     (if 0 \<le> v \<and> v < 2 ^ 16
      then Inr [word_of_int (drop_bit 8 v), word_of_int v]
      else Inl StructError)"

definition pack_be32 :: "int \<Rightarrow> error + byte list" where
  \<comment> \<open>\<open>struct.pack('>L', v)\<close>\<close>
  "pack_be32 v =
     (if 0 \<le> v \<and> v < 2 ^ 32
      then Inr [word_of_int (drop_bit 24 v), word_of_int (drop_bit 16 v),
                word_of_int (drop_bit 8 v), word_of_int v]
      else Inl StructError)"

definition pack_H :: "int \<Rightarrow> error + byte list" where
  \<comment> \<open>\<open>struct.pack('H', v)\<close>: native order (little endian), two bytes\<close>
  "pack_H v =
     (if 0 \<le> v \<and> v < 2 ^ 16
      then Inr [word_of_int v, word_of_int (drop_bit 8 v)]
      else Inl StructError)"

definition native_long_bytes :: nat where
  \<comment> \<open>size of the native \<open>unsigned long\<close> that \<open>struct.pack('BL', ...)\<close> uses:
     8 on LP64 platforms\<close>
  "native_long_bytes = 8"

definition pack_BL :: "int \<Rightarrow> int \<Rightarrow> error + byte list" where
  \<comment> \<open>\<open>struct.pack('BL', c, a)\<close>: one byte, padding up to the alignment of the
     long, then the long in native (little endian) order\<close>
  "pack_BL c a =
     (if 0 \<le> c \<and> c < 2 ^ 8 \<and> 0 \<le> a \<and> a < 2 ^ (8 * native_long_bytes)
      then Inr (word_of_int c # replicate (native_long_bytes - 1) 0 @
                map (\<lambda>i. word_of_int (drop_bit (8 * i) a)) [0..<native_long_bytes])
      else Inl StructError)"

section \<open>The abstract record (\<open>records.py\<close>)\<close>

definition Record_eq :: "hexrecord \<Rightarrow> hexrecord \<Rightarrow> bool" where
  \<comment> \<open>\<open>Record.__eq__\<close>\<close>
  "Record_eq self other =
     (address self = address other \<and> tag self = tag other \<and> data self = data other)"

definition overlaps :: "hexrecord \<Rightarrow> hexrecord \<Rightarrow> bool" where
  "overlaps self other =
     do_overlap (address self) (address self + int (length (data self)))
                (address other) (address other + int (length (data other)))"

text \<open>\<open>Record.check\<close>; the subclass's \<open>compute_checksum\<close> is the argument \<open>cc\<close>.
  Comparing the tag \<open>None\<close> with an integer raises \<open>TypeError\<close>.\<close>

definition base_check :: "(hexrecord \<Rightarrow> error + int) \<Rightarrow> hexrecord \<Rightarrow> error + unit" where
  "base_check cc self =
     (if \<not> 0 \<le> address self then Inl (ValueError ''address overflow'')
      else
        (case tag self of
           None \<Rightarrow> Inl TypeError
         | Some t \<Rightarrow>
             if \<not> (0 \<le> t \<and> t \<le> 0xFF) then Inl (ValueError ''tag overflow'')
             else if \<not> (0 \<le> count self \<and> count self \<le> 0xFF)
               then Inl (ValueError ''count overflow'')
             else
               (case checksum self of
                  None \<Rightarrow> Inr ()
                | Some c \<Rightarrow>
                    if \<not> (0 \<le> c \<and> c \<le> 0xFF) then Inl (ValueError ''checksum overflow'')
                    else
                      (case cc self of
                         Inl e \<Rightarrow> Inl e
                       | Inr v \<Rightarrow>
                           if c \<noteq> v then Inl (ValueError ''checksum error'') else Inr ()))))"

text \<open>\<open>Record.check_sequence\<close>: the loop, with the subclass's \<open>check\<close> and
  \<open>is_data\<close> as arguments and the loop variables \<open>last\<close> and \<open>record_endex\<close>.\<close>

fun check_sequence_loop ::
  "(hexrecord \<Rightarrow> error + unit) \<Rightarrow> (hexrecord \<Rightarrow> bool) \<Rightarrow>
   hexrecord option \<Rightarrow> int \<Rightarrow> hexrecord list \<Rightarrow> error + unit" where
  "check_sequence_loop chk isd lst record_endex [] = Inr ()"
| "check_sequence_loop chk isd lst record_endex (r # rs) =
     (case chk r of
        Inl e \<Rightarrow> Inl e
      | Inr _ \<Rightarrow>
          if isd r then
            (case lst of
               None \<Rightarrow>
                 check_sequence_loop chk isd (Some r) (address r + int (length (data r))) rs
             | Some l \<Rightarrow>
                 if overlaps r l then Inl (ValueError ''overlapping records'')
                 else if address r < record_endex then Inl (ValueError ''unsorted records'')
                 else check_sequence_loop chk isd (Some r)
                        (address r + int (length (data r))) rs)
          else check_sequence_loop chk isd lst (address r + int (length (data r))) rs)"

definition base_check_sequence ::
  "(hexrecord \<Rightarrow> error + unit) \<Rightarrow> (hexrecord \<Rightarrow> bool) \<Rightarrow> hexrecord list \<Rightarrow> error + unit" where
  "base_check_sequence chk isd records = check_sequence_loop chk isd None 0 records"

section \<open>MOS Technology records (\<open>formats/mos.py\<close>)\<close>

definition mos_is_data :: "hexrecord \<Rightarrow> bool" where
  "mos_is_data self = (count self > 0)"

definition mos_compute_checksum :: "hexrecord \<Rightarrow> int" where
  "mos_compute_checksum self =
     (if count self \<noteq> 0
      then (count self + drop_bit 16 (address self) + (address self AND 0xFF) +
            sum_bytes (data self)) AND 0xFFFF
      else address self)"

definition mos_init :: "int \<Rightarrow> int option \<Rightarrow> byte list \<Rightarrow> checksum_arg \<Rightarrow> hexrecord" where
  \<comment> \<open>\<open>Record.__init__\<close>; \<open>compute_count\<close> is the inherited \<open>len(self.data)\<close>\<close>
  "mos_init addr tg dat cks =
     (let self = \<lparr>address = addr, tag = tg, data = dat,
                  count = int (length dat), checksum = None\<rparr>
      in case cks of
           Ellipsis \<Rightarrow> self\<lparr>checksum := Some (mos_compute_checksum self)\<rparr>
         | Given c \<Rightarrow> self\<lparr>checksum := c\<rparr>)"

definition mos_check :: "hexrecord \<Rightarrow> error + unit" where
  "mos_check self =
     (if \<not> (0 \<le> address self \<and> address self < 2 ^ 16)
        then Inl (ValueError ''address overflow'')
      else if tag self \<noteq> None then Inl (ValueError ''wrong tag'')
      else if \<not> (0 \<le> count self \<and> count self < 2 ^ 8)
        then Inl (ValueError ''count overflow'')
      else if count self \<noteq> int (length (data self)) then Inl (ValueError ''count error'')
      else case checksum self of
        None \<Rightarrow> Inr ()
      | Some c \<Rightarrow>
          if \<not> (0 \<le> c \<and> c < 2 ^ 16) then Inl (ValueError ''checksum overflow'')
          else if c \<noteq> mos_compute_checksum self then Inl (ValueError ''checksum error'')
          else Inr ())"

definition mos_build_data :: "int \<Rightarrow> byte list \<Rightarrow> hexrecord" where
  "mos_build_data addr dat = mos_init addr None dat Ellipsis"

definition mos_build_terminator :: "int \<Rightarrow> hexrecord" where
  "mos_build_terminator record_count =
     mos_init record_count None [] (Given (Some record_count))"

fun mos_split_loop :: "int \<Rightarrow> byte list list \<Rightarrow> hexrecord list" where
  "mos_split_loop offset [] = []"
| "mos_split_loop offset (chunk # chunks) =
     mos_build_data offset chunk # mos_split_loop (offset + int (length chunk)) chunks"

definition mos_split :: "byte list \<Rightarrow> int \<Rightarrow> int \<Rightarrow> bool \<Rightarrow> bool \<Rightarrow> error + hexrecord list" where
  "mos_split dat addr columns align standalone =
     (if \<not> (0 \<le> addr \<and> addr < 2 ^ 16) then Inl (ValueError ''address overflow'')
      else if \<not> (0 \<le> addr + int (length dat) \<and> addr + int (length dat) \<le> 2 ^ 16)
        then Inl (ValueError ''size overflow'')
      else if \<not> (0 < columns \<and> columns < 2 ^ 8) then Inl (ValueError ''column overflow'')
      else
        (let align_base = (if align then addr mod columns else 0);
             chunks = chop dat columns align_base;
             record_count = int (length chunks)
         in Inr (mos_split_loop addr chunks @
                 (if standalone then [mos_build_terminator record_count] else []))))"

definition mos_check_sequence :: "hexrecord list \<Rightarrow> error + unit" where
  "mos_check_sequence records =
     (case base_check_sequence mos_check mos_is_data records of
        Inl e \<Rightarrow> Inl e
      | Inr _ \<Rightarrow>
          if length records < 1 then Inl (ValueError ''missing terminator'')
          else
            (let record_count = int (length records) - 1;
                 record = last records
             in if address record \<noteq> record_count \<or> checksum record \<noteq> Some record_count
                then Inl (ValueError ''wrong terminator'')
                else Inr ()))"

section \<open>Intel HEX records (\<open>formats/intel.py\<close>)\<close>

definition intel_TAG_TYPE :: "int \<Rightarrow> error + int" where
  \<comment> \<open>\<open>Tag(value)\<close>: the members are 0 (DATA), 1 (END_OF_FILE),
     2 (EXTENDED_SEGMENT_ADDRESS), 3 (START_SEGMENT_ADDRESS),
     4 (EXTENDED_LINEAR_ADDRESS), 5 (START_LINEAR_ADDRESS)\<close>
  "intel_TAG_TYPE v = (if 0 \<le> v \<and> v \<le> 5 then Inr v else Inl (ValueError ''not a valid Tag''))"

definition intel_is_data :: "hexrecord \<Rightarrow> bool" where
  "intel_is_data self = (tag self = Some 0)"

definition intel_compute_count :: "hexrecord \<Rightarrow> int" where
  "intel_compute_count self = int (length (data self))"

definition intel_compute_checksum :: "hexrecord \<Rightarrow> error + int" where
  "intel_compute_checksum self =
     (let offset = address self AND 0xFFFF
      in case pack_H offset of
           Inl e \<Rightarrow> Inl e
         | Inr packed \<Rightarrow>
             (case tag self of
                None \<Rightarrow> Inl TypeError
              | Some t \<Rightarrow>
                  (let cs = count self + sum_bytes packed + t + sum_bytes (data self)
                   in Inr ((0x100 - (cs AND 0xFF)) AND 0xFF))))"

definition intel_init :: "int \<Rightarrow> int \<Rightarrow> byte list \<Rightarrow> checksum_arg \<Rightarrow> error + hexrecord" where
  "intel_init addr tg dat cks =
     (if \<not> (0 \<le> addr \<and> addr < 2 ^ 32) then Inl (ValueError ''address overflow'')
      else if \<not> (0 \<le> addr + int (length dat) \<and> addr + int (length dat) \<le> 2 ^ 32)
        then Inl (ValueError ''size overflow'')
      else
        (case intel_TAG_TYPE tg of
           Inl e \<Rightarrow> Inl e
         | Inr t \<Rightarrow>
             (let self = \<lparr>address = addr, tag = Some t, data = dat,
                          count = int (length dat), checksum = None\<rparr>
              in (case cks of
                    Ellipsis \<Rightarrow>
                      (case intel_compute_checksum self of
                         Inl e \<Rightarrow> Inl e
                       | Inr c \<Rightarrow> Inr (self\<lparr>checksum := Some c\<rparr>))
                  | Given c \<Rightarrow> Inr (self\<lparr>checksum := c\<rparr>)))))"

definition intel_check :: "hexrecord \<Rightarrow> error + unit" where
  "intel_check self =
     (case base_check intel_compute_checksum self of
        Inl e \<Rightarrow> Inl e
      | Inr _ \<Rightarrow>
          if count self \<noteq> intel_compute_count self then Inl (ValueError ''count error'')
          else
            (case tag self of
               None \<Rightarrow> Inl (ValueError ''not a valid Tag'')
             | Some t \<Rightarrow> (case intel_TAG_TYPE t of Inl e \<Rightarrow> Inl e | Inr _ \<Rightarrow> Inr ())))"

definition intel_build_data :: "int \<Rightarrow> byte list \<Rightarrow> error + hexrecord" where
  "intel_build_data addr dat = intel_init addr 0 dat Ellipsis"

definition intel_build_extended_linear_address :: "int \<Rightarrow> error + hexrecord" where
  "intel_build_extended_linear_address addr =
     (if \<not> (0 \<le> addr \<and> addr < 2 ^ 32) then Inl (ValueError ''address overflow'')
      else case pack_be16 (drop_bit 16 addr) of
        Inl e \<Rightarrow> Inl e
      | Inr segment \<Rightarrow> intel_init 0 4 segment Ellipsis)"

definition intel_build_start_linear_address :: "int \<Rightarrow> error + hexrecord" where
  "intel_build_start_linear_address addr =
     (if \<not> (0 \<le> addr \<and> addr < 2 ^ 32) then Inl (ValueError ''address overflow'')
      else case pack_be32 addr of
        Inl e \<Rightarrow> Inl e
      | Inr packed \<Rightarrow> intel_init 0 5 packed Ellipsis)"

definition intel_build_end_of_file :: "error + hexrecord" where
  "intel_build_end_of_file = intel_init 0 1 [] Ellipsis"

definition intel_terminate :: "int \<Rightarrow> error + hexrecord list" where
  "intel_terminate start =
     (case intel_build_extended_linear_address 0 of
        Inl e \<Rightarrow> Inl e
      | Inr r1 \<Rightarrow>
          (case intel_build_start_linear_address start of
             Inl e \<Rightarrow> Inl e
           | Inr r2 \<Rightarrow>
               (case intel_build_end_of_file of
                  Inl e \<Rightarrow> Inl e
                | Inr r3 \<Rightarrow> Inr [r1, r2, r3])))"

text \<open>The loop of \<open>Record.split\<close> over the chunks, with the loop variables
  \<open>address\<close> and \<open>address_old\<close>.\<close>

fun intel_split_loop :: "int \<Rightarrow> int \<Rightarrow> byte list list \<Rightarrow> error + hexrecord list" where
  "intel_split_loop addr address_old [] = Inr []"
| "intel_split_loop addr address_old (chunk # chunks) =
     (let len = int (length chunk);
          endex = addr + len;
          overflow = endex AND 0xFFFF
      in if overflow \<noteq> 0 \<and> (addr XOR endex) AND 0xFFFF0000 \<noteq> 0 then
           (let pivot = len - overflow
            in case intel_build_data addr (slice_to chunk pivot) of
                 Inl e \<Rightarrow> Inl e
               | Inr r1 \<Rightarrow>
                   (case intel_build_extended_linear_address (addr + pivot) of
                      Inl e \<Rightarrow> Inl e
                    | Inr r2 \<Rightarrow>
                        (case intel_build_data (addr + pivot) (slice_from chunk pivot) of
                           Inl e \<Rightarrow> Inl e
                         | Inr r3 \<Rightarrow>
                             (case intel_split_loop (addr + pivot + overflow) (addr + pivot) chunks of
                                Inl e \<Rightarrow> Inl e
                              | Inr rest \<Rightarrow> Inr (r1 # r2 # r3 # rest)))))
         else
           (case (if (addr XOR address_old) AND 0xFFFF0000 \<noteq> 0
                  then (case intel_build_extended_linear_address addr of
                          Inl e \<Rightarrow> Inl e
                        | Inr r \<Rightarrow> Inr [r])
                  else Inr []) of
              Inl e \<Rightarrow> Inl e
            | Inr ela \<Rightarrow>
                (case intel_build_data addr chunk of
                   Inl e \<Rightarrow> Inl e
                 | Inr r \<Rightarrow>
                     (case intel_split_loop (addr + len) addr chunks of
                        Inl e \<Rightarrow> Inl e
                      | Inr rest \<Rightarrow> Inr (ela @ r # rest)))))"

definition intel_split ::
  "byte list \<Rightarrow> int \<Rightarrow> int \<Rightarrow> bool \<Rightarrow> bool \<Rightarrow> int option \<Rightarrow> error + hexrecord list" where
  "intel_split dat addr columns align standalone start =
     (if \<not> (0 \<le> addr \<and> addr < 2 ^ 32) then Inl (ValueError ''address overflow'')
      else if \<not> (0 \<le> addr + int (length dat) \<and> addr + int (length dat) \<le> 2 ^ 32)
        then Inl (ValueError ''size overflow'')
      else if \<not> (0 < columns \<and> columns < 255) then Inl (ValueError ''column overflow'')
      else
        (let start' = (case start of None \<Rightarrow> addr | Some s \<Rightarrow> s);
             align_base = (if align then addr mod columns else 0)
         in case intel_split_loop addr 0 (chop dat columns align_base) of
              Inl e \<Rightarrow> Inl e
            | Inr records \<Rightarrow>
                if standalone then
                  (case intel_terminate start' of
                     Inl e \<Rightarrow> Inl e
                   | Inr term \<Rightarrow> Inr (records @ term))
                else Inr records))"

section \<open>Motorola S-records (\<open>formats/motorola.py\<close>)\<close>

definition motorola_TAG_TYPE :: "int \<Rightarrow> error + int" where
  \<comment> \<open>\<open>Tag(value)\<close>: the members are 0 (HEADER), 1 to 3 (DATA_16, DATA_24, DATA_32),
     4 (reserved), 5 and 6 (COUNT_16, COUNT_24), 7 to 9 (START_32, START_24, START_16)\<close>
  "motorola_TAG_TYPE v =
     (if 0 \<le> v \<and> v \<le> 9 then Inr v else Inl (ValueError ''not a valid Tag''))"

definition TAG_TO_ADDRESS_LENGTH :: "int option list" where
  "TAG_TO_ADDRESS_LENGTH =
     [Some 2, Some 2, Some 3, Some 4, None, None, None, Some 4, Some 3, Some 2]"

definition MATCHING_TAG :: "int option list" where
  "MATCHING_TAG = [None, None, None, None, None, None, None, Some 3, Some 2, Some 1]"

fun tuple_index :: "'a list \<Rightarrow> 'a \<Rightarrow> error + int" where
  \<comment> \<open>\<open>tuple.index\<close>: the first position of the value, \<open>ValueError\<close> when absent\<close>
  "tuple_index [] v = Inl (ValueError ''tuple.index(x): x not in tuple'')"
| "tuple_index (x # xs) v =
     (if x = v then Inr 0
      else (case tuple_index xs v of Inl e \<Rightarrow> Inl e | Inr i \<Rightarrow> Inr (i + 1)))"

definition motorola_is_data :: "hexrecord \<Rightarrow> bool" where
  "motorola_is_data self = (tag self = Some 1 \<or> tag self = Some 2 \<or> tag self = Some 3)"

definition motorola_compute_count :: "hexrecord \<Rightarrow> error + int" where
  "motorola_compute_count self =
     (case tag self of
        None \<Rightarrow> Inl TypeError
      | Some t \<Rightarrow>
          (case tuple_get TAG_TO_ADDRESS_LENGTH t of
             Inl e \<Rightarrow> Inl e
           | Inr al \<Rightarrow>
               Inr ((case al of None \<Rightarrow> 0 | Some n \<Rightarrow> n) + int (length (data self)) + 1)))"

definition motorola_compute_checksum :: "hexrecord \<Rightarrow> error + int" where
  "motorola_compute_checksum self =
     (case pack_BL (count self) (address self) of
        Inl e \<Rightarrow> Inl e
      | Inr packed \<Rightarrow>
          (let cs = sum_bytes packed + sum_bytes (data self)
           in Inr ((cs AND 0xFF) XOR 0xFF)))"

definition motorola_init :: "int \<Rightarrow> int \<Rightarrow> byte list \<Rightarrow> checksum_arg \<Rightarrow> error + hexrecord" where
  "motorola_init addr tg dat cks =
     (case motorola_TAG_TYPE tg of
        Inl e \<Rightarrow> Inl e
      | Inr t \<Rightarrow>
          (let self0 = \<lparr>address = addr, tag = Some t, data = dat, count = 0, checksum = None\<rparr>
           in (case motorola_compute_count self0 of
                 Inl e \<Rightarrow> Inl e
               | Inr n \<Rightarrow>
                   (let self = self0\<lparr>count := n\<rparr>
                    in (case cks of
                          Ellipsis \<Rightarrow>
                            (case motorola_compute_checksum self of
                               Inl e \<Rightarrow> Inl e
                             | Inr c \<Rightarrow> Inr (self\<lparr>checksum := Some c\<rparr>))
                        | Given c \<Rightarrow> Inr (self\<lparr>checksum := c\<rparr>))))))"

definition motorola_check :: "hexrecord \<Rightarrow> error + unit" where
  "motorola_check self =
     (case base_check motorola_compute_checksum self of
        Inl e \<Rightarrow> Inl e
      | Inr _ \<Rightarrow>
          (case tag self of
             None \<Rightarrow> Inl (ValueError ''not a valid Tag'')
           | Some t0 \<Rightarrow>
               (case motorola_TAG_TYPE t0 of
                  Inl e \<Rightarrow> Inl e
                | Inr t \<Rightarrow>
                    if (t = 0 \<or> t = 4 \<or> t = 5 \<or> t = 6) \<and> address self \<noteq> 0
                      then Inl (ValueError ''address error'')
                    else
                      (case motorola_compute_count self of
                         Inl e \<Rightarrow> Inl e
                       | Inr n \<Rightarrow>
                           if count self \<noteq> n then Inl (ValueError ''count error'')
                           else Inr ()))))"

definition fit_data_tag :: "int \<Rightarrow> error + int" where
  "fit_data_tag endex =
     (if \<not> (0 \<le> endex \<and> endex \<le> 2 ^ 32) then Inl (ValueError ''address overflow'')
      else if endex \<le> 2 ^ 16 then Inr 1
      else if endex \<le> 2 ^ 24 then Inr 2
      else Inr 3)"

definition fit_count_tag :: "int \<Rightarrow> error + int" where
  "fit_count_tag record_count =
     (if \<not> (0 \<le> record_count \<and> record_count < 2 ^ 24) then Inl (ValueError ''count overflow'')
      else if record_count < 2 ^ 16 then Inr 5
      else Inr 6)"

definition motorola_build_header :: "byte list \<Rightarrow> error + hexrecord" where
  "motorola_build_header dat = motorola_init 0 0 dat Ellipsis"

definition motorola_build_data :: "int \<Rightarrow> byte list \<Rightarrow> int option \<Rightarrow> error + hexrecord" where
  "motorola_build_data addr dat tg =
     (case (case tg of None \<Rightarrow> fit_data_tag (addr + int (length dat)) | Some t \<Rightarrow> Inr t) of
        Inl e \<Rightarrow> Inl e
      | Inr t \<Rightarrow>
          if \<not> (t = 1 \<or> t = 2 \<or> t = 3) then Inl (ValueError ''tag error'')
          else motorola_init addr t dat Ellipsis)"

definition motorola_build_terminator :: "int \<Rightarrow> int \<Rightarrow> error + hexrecord" where
  "motorola_build_terminator start last_data_tag =
     (case tuple_index MATCHING_TAG (Some last_data_tag) of
        Inl e \<Rightarrow> Inl e
      | Inr tag_index \<Rightarrow> motorola_init start tag_index [] Ellipsis)"

definition motorola_build_count :: "int \<Rightarrow> error + hexrecord" where
  "motorola_build_count record_count =
     (case fit_count_tag record_count of
        Inl e \<Rightarrow> Inl e
      | Inr t \<Rightarrow>
          (case pack_be32 record_count of
             Inl e \<Rightarrow> Inl e
           | Inr count_data \<Rightarrow> motorola_init 0 t (slice_from count_data (7 - t)) Ellipsis))"

text \<open>The loop of \<open>Record.split\<close> over the chunks, with the loop variable
  \<open>address\<close>; the loop variable \<open>count\<close> ends as the number of chunks.\<close>

fun motorola_split_loop :: "int \<Rightarrow> int \<Rightarrow> byte list list \<Rightarrow> error + hexrecord list" where
  "motorola_split_loop addr tg [] = Inr []"
| "motorola_split_loop addr tg (chunk # chunks) =
     (case motorola_build_data addr chunk (Some tg) of
        Inl e \<Rightarrow> Inl e
      | Inr r \<Rightarrow>
          (case motorola_split_loop (addr + int (length chunk)) tg chunks of
             Inl e \<Rightarrow> Inl e
           | Inr rest \<Rightarrow> Inr (r # rest)))"

definition motorola_split ::
  "byte list \<Rightarrow> int \<Rightarrow> int \<Rightarrow> bool \<Rightarrow> bool \<Rightarrow> int option \<Rightarrow> int option \<Rightarrow> byte list \<Rightarrow>
   error + hexrecord list" where
  "motorola_split dat addr columns align standalone start tg header =
     (if \<not> (0 \<le> addr \<and> addr < 2 ^ 32) then Inl (ValueError ''address overflow'')
      else if \<not> (0 \<le> addr + int (length dat) \<and> addr + int (length dat) \<le> 2 ^ 32)
        then Inl (ValueError ''size overflow'')
      else if \<not> (0 < columns \<and> columns < 128) then Inl (ValueError ''column overflow'')
      else
        (let start' = (case start of None \<Rightarrow> addr | Some s \<Rightarrow> s)
         in (case (case tg of None \<Rightarrow> fit_data_tag (addr + int (length dat)) | Some t \<Rightarrow> Inr t) of
               Inl e \<Rightarrow> Inl e
             | Inr t \<Rightarrow>
                 (case (if standalone
                        then (case motorola_build_header header of
                                Inl e \<Rightarrow> Inl e
                              | Inr h \<Rightarrow> Inr [h])
                        else Inr []) of
                    Inl e \<Rightarrow> Inl e
                  | Inr head \<Rightarrow>
                      (let skip = (if align then addr mod columns else 0);
                           chunks = chop dat columns skip
                       in (case motorola_split_loop addr t chunks of
                             Inl e \<Rightarrow> Inl e
                           | Inr records \<Rightarrow>
                               if standalone then
                                 (case motorola_build_count (int (length chunks)) of
                                    Inl e \<Rightarrow> Inl e
                                  | Inr c \<Rightarrow>
                                      (case motorola_build_terminator start' t of
                                         Inl e \<Rightarrow> Inl e
                                       | Inr term \<Rightarrow> Inr (head @ records @ [c, term])))
                               else Inr (head @ records)))))))"

section \<open>Blocks (\<open>hexrec.blocks\<close>) and the bridge between blocks and records\<close>

text \<open>A block is a start address with the bytes stored from there on.\<close>

definition block_endex :: "block \<Rightarrow> int" where
  "block_endex b = fst b + int (length (snd b))"

fun merge :: "block list \<Rightarrow> block list" where
  \<comment> \<open>Modelled from the spec: \<open>blocks.merge\<close> is not among the sources.  It collapses
     sorted, non-overlapping blocks "into the minimal sorted block set" (section 4.5):
     empty blocks are dropped and a block that ends where the next one starts is joined
     with it.\<close>
  "merge [] = []"
| "merge ((start, items) # blocks) =
     (if items = [] then merge blocks
      else (case merge blocks of
              [] \<Rightarrow> [(start, items)]
            | (start2, items2) # rest \<Rightarrow>
                if start + int (length items) = start2 then (start, items @ items2) # rest
                else (start, items) # (start2, items2) # rest))"

fun clear :: "block list \<Rightarrow> int \<Rightarrow> int \<Rightarrow> block list" where
  \<comment> \<open>Modelled from the spec: what is left of the blocks outside of the range from
     \<open>start\<close> to \<open>endex\<close> (exclusive): of each block the part before \<open>start\<close> and
     the part from \<open>endex\<close> on.\<close>
  "clear [] start endex = []"
| "clear ((s, items) # blocks) start endex =
     (if s < start then [(s, take (nat (start - s)) items)] else []) @
     (if endex < s + int (length items)
      then [(max endex s, drop (nat (max endex s - s)) items)] else []) @
     clear blocks start endex"

fun insert_block :: "block \<Rightarrow> block list \<Rightarrow> block list" where
  \<comment> \<open>Modelled from the spec: puts a block at its place in a list sorted by start
     address.\<close>
  "insert_block b [] = [b]"
| "insert_block b (c # blocks) =
     (if fst b < fst c then b # c # blocks else c # insert_block b blocks)"

definition write_block :: "block list \<Rightarrow> block \<Rightarrow> block list" where
  \<comment> \<open>Modelled from the spec: writing a block over sorted, non-overlapping blocks;
     its bytes replace what was stored in its range ("later sequences overwrite earlier
     ones on overlap", section 4.6).\<close>
  "write_block blocks b =
     (if snd b = [] then blocks
      else insert_block b (clear blocks (fst b) (block_endex b)))"

definition union_blocks :: "block list list \<Rightarrow> block list" where
  \<comment> \<open>Modelled from the spec: \<open>blocks.union\<close> is not among the sources.  Its arguments
     are block sequences in priority order; their blocks are written one after the other,
     so that the last writer wins, and the result is sorted by start address and
     non-overlapping (section 4.6).\<close>
  "union_blocks blocks_list = foldl write_block [] (concat blocks_list)"

definition get_data_records :: "(hexrecord \<Rightarrow> bool) \<Rightarrow> hexrecord list \<Rightarrow> hexrecord list" where
  \<comment> \<open>the argument \<open>isd\<close> is the \<open>is_data\<close> method of the records' class\<close>
  "get_data_records isd records = filter isd records"

definition record_block :: "hexrecord \<Rightarrow> block" where
  \<comment> \<open>the tuple \<open>(r.address, r.data)\<close>\<close>
  "record_block r = (address r, data r)"

definition records_to_blocks :: "(hexrecord \<Rightarrow> bool) \<Rightarrow> hexrecord list \<Rightarrow> block list" where
  "records_to_blocks isd records =
     merge (union_blocks [map record_block (get_data_records isd records)])"

definition merge_records_blocks :: "hexrecord list list \<Rightarrow> block list" where
  \<comment> \<open>the blocks that \<open>merge_records\<close> computes and hands to \<open>blocks_to_records\<close>\<close>
  "merge_records_blocks data_records =
     merge (union_blocks (map (map record_block) data_records))"

text \<open>Reading blocks: the byte stored at an address (by the first block that covers it),
  and whether a block sequence covers an address.\<close>

fun byte_at :: "block list \<Rightarrow> int \<Rightarrow> byte option" where
  "byte_at [] a = None"
| "byte_at ((s, items) # blocks) a =
     (if s \<le> a \<and> a < s + int (length items) then Some (items ! nat (a - s))
      else byte_at blocks a)"

definition in_block :: "block \<Rightarrow> int \<Rightarrow> bool" where
  "in_block b a = (fst b \<le> a \<and> a < block_endex b)"

definition covers :: "block list \<Rightarrow> int \<Rightarrow> bool" where
  "covers blocks a = list_ex (\<lambda>b. in_block b a) blocks"

text \<open>A block sequence is sorted by start address and non-overlapping when every block
  ends at or before the start of the next one.\<close>

fun sorted_blocks :: "block list \<Rightarrow> bool" where
  "sorted_blocks [] = True"
| "sorted_blocks [b] = True"
| "sorted_blocks (b # c # blocks) = (block_endex b \<le> fst c \<and> sorted_blocks (c # blocks))"

section \<open>Text fields: Python's \<open>format\<close>, \<open>int\<close> and \<open>str.strip\<close>, and \<open>hexlify\<close>\<close>

definition hex_digit :: "nat \<Rightarrow> char" where
  "hex_digit d = ''0123456789ABCDEF'' ! d"

definition hex_value :: "char \<Rightarrow> nat option" where
  \<comment> \<open>the value of a digit, in either case\<close>
  "hex_value c = map_of (zip ''0123456789ABCDEFabcdef'' ([0..<16] @ [10..<16])) c"

definition is_digit :: "nat \<Rightarrow> char \<Rightarrow> bool" where
  \<comment> \<open>a digit of the given base: \<open>[0-9A-Fa-f]\<close> for base 16, \<open>[0-9]\<close> for base 10\<close>
  "is_digit base c = (case hex_value c of None \<Rightarrow> False | Some v \<Rightarrow> v < base)"

function digits :: "nat \<Rightarrow> nat \<Rightarrow> string" where
  "digits base n =
     (if n < base \<or> base < 2 then [hex_digit n]
      else digits base (n div base) @ [hex_digit (n mod base)])"
  by pat_completeness auto
termination
  by (relation "measure (\<lambda>(base, n). n)") auto

declare digits.simps [simp del]

definition format_X :: "nat \<Rightarrow> int \<Rightarrow> string" where
  \<comment> \<open>\<open>f'{n:0wX}'\<close>: upper-case hexadecimal digits, padded with zeros after the sign
     up to the width \<open>w\<close>\<close>
  "format_X w n =
     (if 0 \<le> n
      then (let s = digits 16 (nat n) in replicate (w - length s) CHR ''0'' @ s)
      else (let s = digits 16 (nat (- n))
            in CHR ''-'' # replicate (w - 1 - length s) CHR ''0'' @ s))"

definition format_d :: "int \<Rightarrow> string" where
  \<comment> \<open>\<open>f'{n:d}'\<close>\<close>
  "format_d n = (if 0 \<le> n then digits 10 (nat n) else CHR ''-'' # digits 10 (nat (- n)))"

definition digits_value :: "nat \<Rightarrow> string \<Rightarrow> int" where
  \<comment> \<open>the number that a string of digits spells\<close>
  "digits_value base s =
     foldl (\<lambda>a c. int base * a + (case hex_value c of None \<Rightarrow> 0 | Some v \<Rightarrow> int v)) 0 s"

definition int_base :: "nat \<Rightarrow> string \<Rightarrow> error + int" where
  \<comment> \<open>\<open>int(s, base)\<close> of a string of digits, which is what the regular expressions let
     through; another string raises \<open>ValueError\<close>\<close>
  "int_base base s =
     (if s \<noteq> [] \<and> list_all (is_digit base) s then Inr (digits_value base s)
      else Inl (ValueError ''invalid literal for int()''))"

definition is_space :: "char \<Rightarrow> bool" where
  \<comment> \<open>\<open>str.isspace\<close> on the characters below 256\<close>
  "is_space c = (of_char c \<in> {9, 10, 11, 12, 13, 28, 29, 30, 31, 32, 133, 160 :: nat})"

definition strip :: "string \<Rightarrow> string" where
  "strip s = rev (dropWhile is_space (rev (dropWhile is_space s)))"

definition hexlify :: "byte list \<Rightarrow> string" where
  \<comment> \<open>Modelled from the spec: \<open>utils.hexlify\<close> is not among the sources; two upper-case
     hexadecimal digits for each byte (section 3, "fixed-width hex fields, upper-case hex
     digits").\<close>
  "hexlify bs = concat (map (\<lambda>b. [hex_digit (unat b div 16), hex_digit (unat b mod 16)]) bs)"

fun unhexlify :: "string \<Rightarrow> error + byte list" where
  \<comment> \<open>Modelled from the spec: \<open>utils.unhexlify\<close> is not among the sources; the bytes that
     pairs of hexadecimal digits spell, \<open>ValueError\<close> for anything else.\<close>
  "unhexlify [] = Inr []"
| "unhexlify [c] = Inl (ValueError ''Odd-length string'')"
| "unhexlify (c1 # c2 # rest) =
     (case hex_value c1 of
        None \<Rightarrow> Inl (ValueError ''Non-hexadecimal digit found'')
      | Some h \<Rightarrow>
          (case hex_value c2 of
             None \<Rightarrow> Inl (ValueError ''Non-hexadecimal digit found'')
           | Some l \<Rightarrow>
               (case unhexlify rest of
                  Inl e \<Rightarrow> Inl e
                | Inr bs \<Rightarrow> Inr (of_nat (16 * h + l) # bs))))"

definition get_checksum :: "(hexrecord \<Rightarrow> error + int) \<Rightarrow> hexrecord \<Rightarrow> error + int" where
  \<comment> \<open>\<open>Record._get_checksum\<close>; the subclass's \<open>compute_checksum\<close> is the argument\<close>
  "get_checksum cc self = (case checksum self of None \<Rightarrow> cc self | Some c \<Rightarrow> Inr c)"

section \<open>Marshalling and parsing\<close>

text \<open>\<open>Record.marshal\<close> returns \<open>str(self)\<close>.  The regular expressions are anchored and
  all their fields but \<open>data\<close> have a fixed width, so a line matches in one way only;
  \<open>REGEX.match\<close> is modelled by the groups of that match.  The line was stripped, so that
  \<open>$\<close> stands for its end.\<close>

definition mos_str :: "hexrecord \<Rightarrow> string" where
  "mos_str self =
     CHR '';'' # format_X 2 (count self) @ format_X 4 (address self) @ hexlify (data self) @
     format_X 4 (case checksum self of None \<Rightarrow> mos_compute_checksum self | Some c \<Rightarrow> c)"

definition mos_REGEX :: "string \<Rightarrow> (string \<times> string \<times> string \<times> string) option" where
  \<comment> \<open>the groups \<open>count\<close>, \<open>address\<close>, \<open>data\<close>, \<open>checksum\<close>\<close>
  "mos_REGEX line =
     (case line of
        [] \<Rightarrow> None
      | c # rest \<Rightarrow>
          if c = CHR '';'' \<and> list_all (is_digit 16) rest \<and> even (length rest) \<and>
             10 \<le> length rest \<and> length rest \<le> 10 + 2 * 255
          then Some (take 2 rest, take 4 (drop 2 rest),
                     take (length rest - 10) (drop 6 rest), drop (length rest - 4) rest)
          else None)"

definition mos_parse_record :: "string \<Rightarrow> error + hexrecord" where
  "mos_parse_record line =
     (case mos_REGEX (strip line) of
        None \<Rightarrow> Inl (ValueError ''regex error'')
      | Some (count_text, address_text, data_text, checksum_text) \<Rightarrow>
          (case int_base 16 address_text of
             Inl e \<Rightarrow> Inl e
           | Inr addr \<Rightarrow>
               (case int_base 16 count_text of
                  Inl e \<Rightarrow> Inl e
                | Inr cnt \<Rightarrow>
                    (case unhexlify data_text of
                       Inl e \<Rightarrow> Inl e
                     | Inr dat \<Rightarrow>
                         (case int_base 16 checksum_text of
                            Inl e \<Rightarrow> Inl e
                          | Inr cks \<Rightarrow>
                              if cnt \<noteq> int (length dat) then Inl (ValueError ''count error'')
                              else Inr (mos_init addr None dat (Given (Some cks))))))))"

definition intel_str :: "hexrecord \<Rightarrow> error + string" where
  "intel_str self =
     (case intel_check self of
        Inl e \<Rightarrow> Inl e
      | Inr _ \<Rightarrow>
          (case tag self of
             None \<Rightarrow> Inl TypeError
           | Some t \<Rightarrow>
               (case get_checksum intel_compute_checksum self of
                  Inl e \<Rightarrow> Inl e
                | Inr c \<Rightarrow>
                    Inr (CHR '':'' # format_X 2 (int (length (data self))) @
                         format_X 4 (address self AND 0xFFFF) @ format_X 2 t @
                         hexlify (data self) @ format_X 2 c))))"

definition intel_REGEX ::
  "string \<Rightarrow> (string \<times> string \<times> string \<times> string \<times> string) option" where
  \<comment> \<open>the groups \<open>count\<close>, \<open>offset\<close>, \<open>tag\<close>, \<open>data\<close>, \<open>checksum\<close>\<close>
  "intel_REGEX line =
     (case line of
        [] \<Rightarrow> None
      | c # rest \<Rightarrow>
          if c = CHR '':'' \<and> list_all (is_digit 16) rest \<and> even (length rest) \<and>
             10 \<le> length rest \<and> length rest \<le> 10 + 2 * 255
          then Some (take 2 rest, take 4 (drop 2 rest), take 2 (drop 6 rest),
                     take (length rest - 10) (drop 8 rest), drop (length rest - 2) rest)
          else None)"

definition intel_parse_record :: "string \<Rightarrow> error + hexrecord" where
  "intel_parse_record line =
     (case intel_REGEX (strip line) of
        None \<Rightarrow> Inl (ValueError ''regex error'')
      | Some (count_text, offset_text, tag_text, data_text, checksum_text) \<Rightarrow>
          (case int_base 16 offset_text of
             Inl e \<Rightarrow> Inl e
           | Inr offset \<Rightarrow>
               (case int_base 16 tag_text of
                  Inl e \<Rightarrow> Inl e
                | Inr tag_value \<Rightarrow>
                    (case intel_TAG_TYPE tag_value of
                       Inl e \<Rightarrow> Inl e
                     | Inr tg \<Rightarrow>
                         (case int_base 16 count_text of
                            Inl e \<Rightarrow> Inl e
                          | Inr cnt \<Rightarrow>
                              (case unhexlify data_text of
                                 Inl e \<Rightarrow> Inl e
                               | Inr dat \<Rightarrow>
                                   (case int_base 16 checksum_text of
                                      Inl e \<Rightarrow> Inl e
                                    | Inr cks \<Rightarrow>
                                        if cnt \<noteq> int (length dat)
                                        then Inl (ValueError ''count error'')
                                        else intel_init offset tg dat (Given (Some cks)))))))))"

definition motorola_str :: "hexrecord \<Rightarrow> error + string" where
  "motorola_str self =
     (case motorola_check self of
        Inl e \<Rightarrow> Inl e
      | Inr _ \<Rightarrow>
          (case tag self of
             None \<Rightarrow> Inl TypeError
           | Some t \<Rightarrow>
               (case tuple_get TAG_TO_ADDRESS_LENGTH t of
                  Inl e \<Rightarrow> Inl e
                | Inr address_length \<Rightarrow>
                    (let count_text =
                           (case address_length of
                              None \<Rightarrow> format_X 2 (int (length (data self)) + 1)
                            | Some al \<Rightarrow> format_X 2 (al + int (length (data self)) + 1));
                         address_text =
                           (case address_length of
                              None \<Rightarrow> []
                            | Some al \<Rightarrow> slice_from (format_X 8 (address self)) (2 * (4 - al)))
                     in (case get_checksum motorola_compute_checksum self of
                           Inl e \<Rightarrow> Inl e
                         | Inr c \<Rightarrow>
                             Inr (CHR ''S'' # format_d t @ count_text @ address_text @
                                  hexlify (data self) @ format_X 2 c))))))"

definition motorola_REGEX :: "string \<Rightarrow> bool" where
  \<comment> \<open>\<open>S\<close>, a decimal digit, then 4 to 140 pairs of hexadecimal digits\<close>
  "motorola_REGEX line =
     (case line of
        c # d # rest \<Rightarrow>
          c = CHR ''S'' \<and> is_digit 10 d \<and> list_all (is_digit 16) rest \<and>
          even (length rest) \<and> 2 * 4 \<le> length rest \<and> length rest \<le> 2 * 140
      | _ \<Rightarrow> False)"

definition motorola_parse_record :: "string \<Rightarrow> error + hexrecord" where
  "motorola_parse_record line0 =
     (let line = strip line0
      in if \<not> motorola_REGEX line then Inl (ValueError ''regex error'')
         else
           (case int_base 10 (slice_from (slice_to line 2) 1) of
              Inl e \<Rightarrow> Inl e
            | Inr tg \<Rightarrow>
                (case int_base 16 (slice_from (slice_to line 4) 2) of
                   Inl e \<Rightarrow> Inl e
                 | Inr cnt \<Rightarrow>
                     if 2 * cnt \<noteq> int (length line) - (2 + 2) then Inl AssertionError
                     else
                       (case tuple_get TAG_TO_ADDRESS_LENGTH tg of
                          Inl e \<Rightarrow> Inl e
                        | Inr al \<Rightarrow>
                            (let address_length = (case al of None \<Rightarrow> 0 | Some n \<Rightarrow> n)
                             in (case int_base 16 (CHR ''0'' #
                                        slice_from (slice_to line (4 + 2 * address_length)) 4) of
                                   Inl e \<Rightarrow> Inl e
                                 | Inr addr \<Rightarrow>
                                     (case unhexlify (slice_from (slice_to line (- 2))
                                                        (4 + 2 * address_length)) of
                                        Inl e \<Rightarrow> Inl e
                                      | Inr dat \<Rightarrow>
                                          (case int_base 16 (slice_from line (- 2)) of
                                             Inl e \<Rightarrow> Inl e
                                           | Inr cks \<Rightarrow>
                                               motorola_init addr tg dat
                                                 (Given (Some cks))))))))))"

section \<open>The checksum of a MOS record as the specification words it\<close>

definition mos_checksum_spec :: "hexrecord \<Rightarrow> int" where
  \<comment> \<open>section 4.4: \<open>(count + high_byte(address) + low_byte(address) + sum(data)) mod 2^16\<close>,
     the high byte of a 16-bit address being \<open>(address >> 8) & 0xFF\<close>\<close>
  "mos_checksum_spec self =
     (count self + (drop_bit 8 (address self) AND 0xFF) + (address self AND 0xFF) +
      sum_bytes (data self)) mod 2 ^ 16"

section \<open>Notions used to state the properties\<close>

text \<open>Blocks that follow each other without a gap, the first one starting at the
  given address.\<close>

fun contiguous :: "int \<Rightarrow> block list \<Rightarrow> bool" where
  "contiguous a [] = True"
| "contiguous a (b # bs) = (fst b = a \<and> contiguous (block_endex b) bs)"

text \<open>The address of a Motorola record fits the address field of its tag.\<close>

definition address_fits_tag :: "hexrecord \<Rightarrow> bool" where
  "address_fits_tag r =
     (case tag r of
        None \<Rightarrow> True
      | Some t \<Rightarrow>
          (case tuple_get TAG_TO_ADDRESS_LENGTH t of
             Inr (Some al) \<Rightarrow> address r < 2 ^ (8 * nat al)
           | _ \<Rightarrow> True))"

text \<open>All the bytes of a record lie in the 64 KiB page of its first byte.\<close>

definition within_page :: "hexrecord \<Rightarrow> bool" where
  "within_page r = (\<forall>i<length (data r). (address r + int i) div 65536 = address r div 65536)"

section \<open>Record equality\<close>

text \<open>
  C5 (as amended).  \<open>Record.__eq__\<close> compares the three fields \<open>address\<close>, \<open>tag\<close> and
  \<open>data\<close>: two records are equal if and only if these three coincide, whatever their
  \<open>count\<close> and \<open>checksum\<close> fields hold.
\<close>

theorem Record_eq_three_fields:
  "Record_eq r1 r2 = (address r1 = address r2 \<and> tag r1 = tag r2 \<and> data r1 = data r2) \<and>
   Record_eq (r1\<lparr>count := n, checksum := c\<rparr>) r2 = Record_eq r1 r2 \<and>
   Record_eq r1 (r2\<lparr>count := n, checksum := c\<rparr>) = Record_eq r1 r2"
  by (simp add: Record_eq_def)

text \<open>
  C5 as stated fails: two MOS records built with the checksums 0 and 1, and otherwise
  the same, compare equal.
\<close>

theorem Record_eq_ignores_checksum:
  "Record_eq (mos_init 0 None [] (Given (Some 0))) (mos_init 0 None [] (Given (Some 1))) \<and>
   checksum (mos_init 0 None [] (Given (Some 0))) \<noteq>
   checksum (mos_init 0 None [] (Given (Some 1)))"
  by (simp add: Record_eq_def mos_init_def)

section \<open>The MOS checksum\<close>

text \<open>
  C4.  For the data record \<open>build_data(0x1234, b'Hello, World!')\<close> the method
  \<open>compute_checksum\<close> returns \<open>0x04AA\<close>: it adds \<open>address >> 16\<close>, which is 0 for
  every 16-bit address, where the specification's formula adds the high byte
  \<open>(address >> 8) & 0xFF\<close> and gives \<open>0x04BC\<close>.
\<close>

theorem mos_compute_checksum_misses_high_byte:
  "mos_compute_checksum
     (mos_build_data 0x1234
        [0x48, 0x65, 0x6C, 0x6C, 0x6F, 0x2C, 0x20, 0x57, 0x6F, 0x72, 0x6C, 0x64, 0x21])
     = 0x04AA \<and>
   mos_checksum_spec
     (mos_build_data 0x1234
        [0x48, 0x65, 0x6C, 0x6C, 0x6F, 0x2C, 0x20, 0x57, 0x6F, 0x72, 0x6C, 0x64, 0x21])
     = 0x04BC"
  by code_simp

section \<open>The bound on \<open>columns\<close>\<close>

text \<open>
  C6.  \<open>split\<close> of the Intel format raises the column overflow for 255 columns, that
  of the Motorola format for 128 columns, and that of the MOS format accepts 129 columns.
\<close>

theorem split_columns_bound_off:
  "intel_split [0x41] 0 255 True True None = Inl (ValueError ''column overflow'') \<and>
   motorola_split [0x41] 0 128 True True None None [] = Inl (ValueError ''column overflow'') \<and>
   mos_split [0x41] 0 129 True True =
     Inr [\<lparr>address = 0, tag = None, data = [0x41], count = 1, checksum = Some 0x42\<rparr>,
          \<lparr>address = 1, tag = None, data = [], count = 0, checksum = Some 1\<rparr>]"
  by code_simp

section \<open>What \<open>check\<close> tests of the address\<close>

lemma base_check_negative:
  "address r < 0 \<Longrightarrow> base_check cc r = Inl (ValueError ''address overflow'')"
  by (simp add: base_check_def)

text \<open>
  C7 (as amended).  \<open>check\<close> of a MOS record raises the address overflow for every
  address outside of 16 bits; \<open>check\<close> of an Intel or Motorola record raises it for
  every negative address.  The bounds of the address width are enforced elsewhere: the
  Intel constructor and \<open>split\<close> of the Intel and Motorola formats raise the address
  overflow for an address outside of 32 bits and the size overflow when
  \<open>address + len(data)\<close> exceeds \<open>2^32\<close>; \<open>split\<close> of the MOS format does so
  with 16 bits.
\<close>

theorem check_address_bounds:
  "(\<not> (0 \<le> address r \<and> address r < 2 ^ 16) \<longrightarrow>
      mos_check r = Inl (ValueError ''address overflow'')) \<and>
   (address r < 0 \<longrightarrow>
      intel_check r = Inl (ValueError ''address overflow'') \<and>
      motorola_check r = Inl (ValueError ''address overflow'')) \<and>
   (\<not> (0 \<le> a \<and> a < 2 ^ 32) \<longrightarrow>
      intel_init a t d c = Inl (ValueError ''address overflow'') \<and>
      intel_split d a columns align standalone start = Inl (ValueError ''address overflow'') \<and>
      motorola_split d a columns align standalone start tg header =
        Inl (ValueError ''address overflow'')) \<and>
   (0 \<le> a \<and> a < 2 ^ 32 \<and> 2 ^ 32 < a + int (length d) \<longrightarrow>
      intel_init a t d c = Inl (ValueError ''size overflow'') \<and>
      intel_split d a columns align standalone start = Inl (ValueError ''size overflow'') \<and>
      motorola_split d a columns align standalone start tg header =
        Inl (ValueError ''size overflow'')) \<and>
   (\<not> (0 \<le> a \<and> a < 2 ^ 16) \<longrightarrow>
      mos_split d a columns align standalone = Inl (ValueError ''address overflow'')) \<and>
   (0 \<le> a \<and> a < 2 ^ 16 \<and> 2 ^ 16 < a + int (length d) \<longrightarrow>
      mos_split d a columns align standalone = Inl (ValueError ''size overflow''))"
  by (simp add: mos_check_def intel_check_def motorola_check_def base_check_negative
      intel_init_def intel_split_def motorola_split_def mos_split_def)

theorem check_address_bounds_witness:
  "mos_check (mos_build_data (2 ^ 16) [0x41]) = Inl (ValueError ''address overflow'') \<and>
   intel_check \<lparr>address = - 1, tag = Some 0, data = [], count = 0, checksum = None\<rparr>
     = Inl (ValueError ''address overflow'') \<and>
   motorola_check \<lparr>address = - 1, tag = Some 1, data = [], count = 3, checksum = None\<rparr>
     = Inl (ValueError ''address overflow'') \<and>
   intel_init (2 ^ 32) 0 [] Ellipsis = Inl (ValueError ''address overflow'') \<and>
   intel_split [0x41] (2 ^ 32) 16 True True None = Inl (ValueError ''address overflow'') \<and>
   motorola_split [0x41] (2 ^ 32) 16 True True None None [] =
     Inl (ValueError ''address overflow'') \<and>
   intel_init (2 ^ 32 - 1) 0 [0x41, 0x42] Ellipsis = Inl (ValueError ''size overflow'') \<and>
   intel_split [0x41, 0x42] (2 ^ 32 - 1) 16 True True None =
     Inl (ValueError ''size overflow'') \<and>
   motorola_split [0x41, 0x42] (2 ^ 32 - 1) 16 True True None None [] =
     Inl (ValueError ''size overflow'') \<and>
   mos_split [0x41] (2 ^ 16) 16 True True = Inl (ValueError ''address overflow'') \<and>
   mos_split [0x41, 0x42] 0xFFFF 16 True True = Inl (ValueError ''size overflow'')"
proof -
  note t1 = check_address_bounds
    [where r = "mos_build_data (2 ^ 16) [0x41]" and a = "2 ^ 32" and t = 0 and d = "[0x41]"
       and c = Ellipsis and columns = 16 and align = True and standalone = True
       and start = None and tg = None and header = "[]"]
  note t1' = check_address_bounds
    [where r = "mos_build_data (2 ^ 16) [0x41]" and a = "2 ^ 32" and t = 0 and d = "[]"
       and c = Ellipsis and columns = 16 and align = True and standalone = True
       and start = None and tg = None and header = "[]"]
  note t2 = check_address_bounds
    [where r = "\<lparr>address = - 1, tag = Some 0, data = [], count = 0, checksum = None\<rparr>"
       and a = "2 ^ 32 - 1" and t = 0 and d = "[0x41, 0x42]"
       and c = Ellipsis and columns = 16 and align = True and standalone = True
       and start = None and tg = None and header = "[]"]
  note t3 = check_address_bounds
    [where r = "\<lparr>address = - 1, tag = Some 1, data = [], count = 3, checksum = None\<rparr>"
       and a = "2 ^ 16" and t = 0 and d = "[0x41]"
       and c = Ellipsis and columns = 16 and align = True and standalone = True
       and start = None and tg = None and header = "[]"]
  note t4 = check_address_bounds
    [where r = "\<lparr>address = - 1, tag = Some 1, data = [], count = 3, checksum = None\<rparr>"
       and a = "0xFFFF" and t = 0 and d = "[0x41, 0x42]"
       and c = Ellipsis and columns = 16 and align = True and standalone = True
       and start = None and tg = None and header = "[]"]
  show ?thesis
    using t1 t1' t2 t3 t4 by (simp add: mos_build_data_def mos_init_def)
qed

text \<open>
  C7 as stated fails: \<open>check\<close> accepts records beyond the address width.  The MOS
  record \<open>build_data(0xFFFF, b'AB')\<close> passes \<open>check\<close> although it ends beyond 16
  bits.  The Motorola records \<open>Record(2**32, Tag.DATA_32, b'', None)\<close>, whose address
  needs 33 bits, and \<open>Record(2**32 - 1, Tag.DATA_32, b'AB')\<close>, which ends beyond 32 bits,
  pass \<open>check\<close>.  So do the Intel records whose address field holds \<open>2^32\<close>, and
  \<open>2^32 - 1\<close> with two bytes of data.
\<close>

theorem check_accepts_beyond_width:
  "mos_check (mos_build_data 0xFFFF [0x41, 0x42]) = Inr () \<and>
   2 ^ 16 < address (mos_build_data 0xFFFF [0x41, 0x42]) +
            int (length (data (mos_build_data 0xFFFF [0x41, 0x42]))) \<and>
   motorola_init (2 ^ 32) 3 [] (Given None) =
     Inr \<lparr>address = 2 ^ 32, tag = Some 3, data = [], count = 5, checksum = None\<rparr> \<and>
   motorola_check \<lparr>address = 2 ^ 32, tag = Some 3, data = [], count = 5, checksum = None\<rparr>
     = Inr () \<and>
   motorola_init (2 ^ 32 - 1) 3 [0x41, 0x42] Ellipsis =
     Inr \<lparr>address = 2 ^ 32 - 1, tag = Some 3, data = [0x41, 0x42], count = 7,
          checksum = Some 0x79\<rparr> \<and>
   motorola_check \<lparr>address = 2 ^ 32 - 1, tag = Some 3, data = [0x41, 0x42], count = 7,
                   checksum = Some 0x79\<rparr> = Inr () \<and>
   intel_check \<lparr>address = 2 ^ 32, tag = Some 0, data = [], count = 0, checksum = None\<rparr>
     = Inr () \<and>
   intel_check \<lparr>address = 2 ^ 32 - 1, tag = Some 0, data = [0x41, 0x42], count = 2,
                checksum = None\<rparr> = Inr ()"
  by code_simp

section \<open>The terminator of a MOS sequence\<close>

text \<open>
  C8 (as amended).  \<open>check_sequence\<close> of the MOS format accepts exactly the sequences
  that pass the generic \<open>Record.check_sequence\<close>, are not empty, and whose last record
  has an address field and a checksum field both equal to the number of records before
  it.  When the generic check passes, an empty sequence raises the missing terminator and
  every other sequence the wrong terminator.  Neither the count of the last record nor
  the records before it are tested for being terminators.
\<close>

theorem mos_check_sequence_accepts_iff:
  "(mos_check_sequence records = Inr () \<longleftrightarrow>
      base_check_sequence mos_check mos_is_data records = Inr () \<and>
      records \<noteq> [] \<and>
      address (last records) = int (length records) - 1 \<and>
      checksum (last records) = Some (int (length records) - 1)) \<and>
   (base_check_sequence mos_check mos_is_data records = Inr () \<and> records = [] \<longrightarrow>
      mos_check_sequence records = Inl (ValueError ''missing terminator'')) \<and>
   (base_check_sequence mos_check mos_is_data records = Inr () \<and> records \<noteq> [] \<and>
      \<not> (address (last records) = int (length records) - 1 \<and>
         checksum (last records) = Some (int (length records) - 1)) \<longrightarrow>
      mos_check_sequence records = Inl (ValueError ''wrong terminator''))"
  by (auto simp: mos_check_sequence_def Let_def split: sum.splits)

theorem mos_check_sequence_accepts_iff_witness:
  "mos_check_sequence [mos_build_data 0 [0x41], mos_build_terminator 1] = Inr () \<and>
   mos_check_sequence [] = Inl (ValueError ''missing terminator'') \<and>
   mos_check_sequence [mos_build_data 0 [0x41], mos_build_terminator 2]
     = Inl (ValueError ''wrong terminator'')"
proof -
  have b1: "base_check_sequence mos_check mos_is_data
              [mos_build_data 0 [0x41], mos_build_terminator 1] = Inr ()"
    by code_simp
  have b2: "base_check_sequence mos_check mos_is_data [] = Inr ()"
    by code_simp
  have b3: "base_check_sequence mos_check mos_is_data
              [mos_build_data 0 [0x41], mos_build_terminator 2] = Inr ()"
    by code_simp
  show ?thesis
    using mos_check_sequence_accepts_iff [of "[mos_build_data 0 [0x41], mos_build_terminator 1]"]
          mos_check_sequence_accepts_iff [of "[]"]
          mos_check_sequence_accepts_iff [of "[mos_build_data 0 [0x41], mos_build_terminator 2]"]
          b1 b2 b3
    by (simp add: mos_build_terminator_def mos_init_def)
qed

text \<open>
  C8 as stated fails: the sequence of the two terminator records
  \<open>build_terminator(0)\<close> and \<open>build_terminator(1)\<close> is accepted.
\<close>

theorem mos_check_sequence_two_terminators:
  "mos_check_sequence [mos_build_terminator 0, mos_build_terminator 1] = Inr () \<and>
   count (mos_build_terminator 0) = 0 \<and> count (mos_build_terminator 1) = 0"
  by code_simp

section \<open>Bit masks and 64 KiB pages\<close>

lemma and_ffff: "(x::int) AND 0xFFFF = x mod 65536"
proof -
  have "x AND mask 16 = x mod 65536"
    by (simp add: take_bit_eq_mask [symmetric] take_bit_eq_mod)
  then show ?thesis by (simp add: mask_eq_exp_minus_1)
qed

lemma and_ffff0000: "(x::int) AND 0xFFFF0000 = 65536 * ((x div 65536) mod 65536)"
proof -
  have m: "(0xFFFF0000::int) = push_bit 16 (mask 16)"
    by (simp add: mask_eq_exp_minus_1 push_bit_eq_mult)
  have "x AND push_bit 16 (mask 16) = push_bit 16 (take_bit 16 (drop_bit 16 x))"
    by (rule bit_eqI) (auto simp: bit_simps)
  then show ?thesis
    unfolding m by (simp add: push_bit_eq_mult take_bit_eq_mod drop_bit_eq_div)
qed

lemma xor_eq_0_iff: "((x::int) XOR y = 0) = (x = y)"
proof
  assume h: "x XOR y = 0"
  have "x = (x XOR y) XOR y" by (simp add: xor.assoc)
  then show "x = y" using h by simp
qed simp

lemma page_small:
  fixes a :: int
  assumes "0 \<le> a" "a < 2 ^ 32"
  shows "take_bit 16 (drop_bit 16 a) = a div 65536"
proof -
  have "0 \<le> a div 65536" using assms by simp
  moreover have "a div 65536 < 65536" using assms by simp
  ultimately show ?thesis
    by (simp add: take_bit_int_eq_self_iff drop_bit_eq_div)
qed

lemma xor_page:
  assumes "0 \<le> a" "a < 2 ^ 32" "0 \<le> e" "e < 2 ^ 32"
  shows "((a XOR e) AND 0xFFFF0000 = 0) = (a div 65536 = (e::int) div 65536)"
proof -
  have "((a XOR e) AND 0xFFFF0000 = 0) = (take_bit 16 (drop_bit 16 (a XOR e)) = 0)"
    by (simp add: and_ffff0000 take_bit_eq_mod drop_bit_eq_div)
  also have "\<dots> = (take_bit 16 (drop_bit 16 a) = take_bit 16 (drop_bit 16 e))"
    by (simp only: drop_bit_xor take_bit_xor xor_eq_0_iff)
  finally show ?thesis by (simp only: page_small [OF assms(1,2)] page_small [OF assms(3,4)])
qed

lemma page_decomp:
  fixes x :: int
  obtains q r where "x = 65536 * q + r" "0 \<le> r" "r < 65536" "x div 65536 = q" "x mod 65536 = r"
proof -
  have "x = 65536 * (x div 65536) + x mod 65536" "0 \<le> x mod 65536" "x mod 65536 < 65536"
    by simp_all
  then show ?thesis using that by blast
qed

lemma page_eqI:
  fixes x k :: int
  assumes "65536 * k \<le> x" "x < 65536 * k + 65536"
  shows "x div 65536 = k"
proof (rule int_div_pos_eq [of x 65536 k "x - 65536 * k"])
  show "x = 65536 * k + (x - 65536 * k)" by simp
  show "0 \<le> x - 65536 * k" using assms(1) by simp
  show "x - 65536 * k < 65536" using assms(2) by simp
qed

lemma page_same:
  fixes a e i :: int
  assumes "a \<le> e" "e - a < 65536" "e mod 65536 = 0 \<or> a div 65536 = e div 65536"
    "0 \<le> i" "i < e - a"
  shows "(a + i) div 65536 = a div 65536"
proof -
  obtain qa ra where a: "a = 65536 * qa + ra" "0 \<le> ra" "ra < 65536"
    and qa: "a div 65536 = qa" by (rule page_decomp [of a])
  obtain qe re where e: "e = 65536 * qe + re" "0 \<le> re" "re < 65536"
    and qe: "e div 65536 = qe" "e mod 65536 = re" by (rule page_decomp [of e])
  from assms(3) have c: "re = 0 \<or> qa = qe" by (simp add: qa qe)
  have le: "qa \<le> qe" using zdiv_mono1 [of a e 65536] assms(1) qa qe(1) by simp
  have up: "qe \<le> qa + 1"
  proof (rule ccontr)
    assume "\<not> qe \<le> qa + 1"
    then have "qa + 2 \<le> qe" by linarith
    then have "65536 * (qa + 2) \<le> 65536 * qe" by (rule mult_left_mono) simp
    then have "65536 * qa + 131072 \<le> 65536 * qe" by (simp add: algebra_simps)
    then show False using a e assms(2) by linarith
  qed
  have "qa = qe \<or> qe = qa + 1" using le up by linarith
  then have "65536 * qa + ra + i < 65536 * qa + 65536"
  proof
    assume "qa = qe"
    then show ?thesis using a e assms(1,2,4,5) by linarith
  next
    assume h: "qe = qa + 1"
    then have "re = 0" using c by linarith
    then have "e = 65536 * qa + 65536" using e(1) h by (simp add: algebra_simps)
    then show ?thesis using a assms(5) by linarith
  qed
  then have "(a + i) div 65536 = qa"
    using a assms(4) by (intro page_eqI) linarith+
  then show ?thesis by (simp add: qa)
qed

lemma page_cross:
  fixes a e :: int
  assumes "a \<le> e" "e - a < 65536" "a div 65536 \<noteq> e div 65536"
  shows "0 < e - a - e mod 65536"
proof -
  obtain qa ra where a: "a = 65536 * qa + ra" "0 \<le> ra" "ra < 65536"
    and qa: "a div 65536 = qa" by (rule page_decomp [of a])
  obtain qe re where e: "e = 65536 * qe + re" "0 \<le> re" "re < 65536"
    and qe: "e div 65536 = qe" "e mod 65536 = re" by (rule page_decomp [of e])
  have le: "qa \<le> qe" using zdiv_mono1 [of a e 65536] assms(1) qa qe(1) by simp
  have "qa \<noteq> qe" using assms(3) by (simp add: qa qe)
  then have "qa + 1 \<le> qe" using le by linarith
  then have "65536 * (qa + 1) \<le> 65536 * qe" by (rule mult_left_mono) simp
  then have "65536 * qa + 65536 \<le> 65536 * qe" by (simp add: algebra_simps)
  then have "0 < e - a - re" using a e by linarith
  then show ?thesis by (simp add: qe)
qed

lemma page_boundary: "((e::int) - e mod 65536) mod 65536 = 0"
  by (simp add: minus_mod_eq_mult_div)

section \<open>The chunks of \<open>chop\<close>\<close>

lemma chop_windows_Nil: "chop_windows [] w = []"
  by (subst chop_windows.simps) simp

lemma chop_windows_step:
  "xs \<noteq> [] \<Longrightarrow> 0 < w \<Longrightarrow> chop_windows xs w = take w xs # chop_windows (drop w xs) w"
  by (subst chop_windows.simps) simp

lemma chop_windows_zero: "chop_windows xs 0 = []"
  by (subst chop_windows.simps) simp

lemma concat_chop_windows: "0 < w \<Longrightarrow> concat (chop_windows xs w) = xs"
proof (induction xs w rule: chop_windows.induct)
  case (1 xs w)
  show ?case
  proof (cases "xs = []")
    case True
    then show ?thesis by (simp add: chop_windows_Nil)
  next
    case False
    moreover have "concat (chop_windows (drop w xs) w) = drop w xs"
      using "1.IH" False "1.prems" by simp
    ultimately show ?thesis using "1.prems" by (simp add: chop_windows_step)
  qed
qed

lemma chop_windows_chunks:
  "c \<in> set (chop_windows xs w) \<Longrightarrow> c \<noteq> [] \<and> length c \<le> w"
proof (induction xs w rule: chop_windows.induct)
  case (1 xs w)
  show ?case
  proof (cases "xs = [] \<or> w = 0")
    case True
    then show ?thesis using "1.prems" by (auto simp: chop_windows_Nil chop_windows_zero)
  next
    case False
    then have "c = take w xs \<or> c \<in> set (chop_windows (drop w xs) w)"
      using "1.prems" by (simp add: chop_windows_step)
    then show ?thesis using "1.IH" False by auto
  qed
qed

lemma concat_chop: "0 < window \<Longrightarrow> concat (chop vector window align_base) = vector"
  by (simp add: chop_def Let_def concat_chop_windows)

lemma chop_chunk_length:
  assumes "0 < window" "c \<in> set (chop vector window align_base)"
  shows "int (length c) \<le> window"
proof (cases "align_base \<noteq> 0")
  case True
  have m: "0 \<le> (- align_base) mod window" "(- align_base) mod window < window"
    using assms(1) by simp_all
  from assms(2) True
  have "c = take (nat ((- align_base) mod window)) vector \<or>
        c \<in> set (chop_windows (drop (nat ((- align_base) mod window)) vector) (nat window))"
    by (simp add: chop_def Let_def)
  then show ?thesis
  proof
    assume "c = take (nat ((- align_base) mod window)) vector"
    then have "int (length c) \<le> (- align_base) mod window" using m(1) by simp
    then show ?thesis using m(2) by linarith
  next
    assume "c \<in> set (chop_windows (drop (nat ((- align_base) mod window)) vector) (nat window))"
    then have "length c \<le> nat window" using chop_windows_chunks by blast
    then show ?thesis using assms(1) by simp
  qed
next
  case False
  then have "c \<in> set (chop_windows vector (nat window))"
    using assms(2) by (simp add: chop_def)
  then have "length c \<le> nat window" using chop_windows_chunks by blast
  then show ?thesis using assms(1) by simp
qed

lemma chop_tl_nonempty:
  assumes "c \<in> set (tl (chop vector window align_base))"
  shows "c \<noteq> []"
proof (cases "align_base \<noteq> 0")
  case True
  then have "c \<in> set (chop_windows (drop (nat ((- align_base) mod window)) vector) (nat window))"
    using assms by (simp add: chop_def Let_def)
  then show ?thesis using chop_windows_chunks by blast
next
  case False
  then have "c \<in> set (tl (chop_windows vector (nat window)))"
    using assms by (simp add: chop_def)
  then have "c \<in> set (chop_windows vector (nat window))"
    by (cases "chop_windows vector (nat window)") auto
  then show ?thesis using chop_windows_chunks by blast
qed

section \<open>Intel HEX: every data record of \<open>split\<close> lies in one 64 KiB page\<close>

lemma intel_compute_checksum_ok:
  "tag r = Some t \<Longrightarrow> \<exists>c. intel_compute_checksum r = Inr c"
  by (simp add: intel_compute_checksum_def pack_H_def and_ffff Let_def)

lemma intel_init_ok:
  assumes "0 \<le> a" "a < 2 ^ 32" "a + int (length d) \<le> 2 ^ 32" "0 \<le> t" "t \<le> 5"
  obtains r where "intel_init a t d Ellipsis = Inr r" "address r = a" "tag r = Some t"
    "data r = d"
proof -
  obtain c where "intel_compute_checksum
     \<lparr>address = a, tag = Some t, data = d, count = int (length d), checksum = None\<rparr> = Inr c"
    using intel_compute_checksum_ok [of _ t] by force
  then have "intel_init a t d Ellipsis =
     Inr \<lparr>address = a, tag = Some t, data = d, count = int (length d), checksum = Some c\<rparr>"
    using assms by (simp add: intel_init_def intel_TAG_TYPE_def)
  then show ?thesis using that by force
qed

lemma intel_build_data_ok:
  assumes "0 \<le> a" "a < 2 ^ 32" "a + int (length d) \<le> 2 ^ 32"
  obtains r where "intel_build_data a d = Inr r" "address r = a" "tag r = Some 0" "data r = d"
  unfolding intel_build_data_def using intel_init_ok [OF assms, of 0] by auto

lemma intel_ela_ok:
  assumes "0 \<le> a" "a < 2 ^ 32"
  obtains r where "intel_build_extended_linear_address a = Inr r" "tag r = Some 4"
proof -
  have "0 \<le> a div 65536" "a div 65536 < 65536" using assms by simp_all
  then obtain seg where s: "pack_be16 (drop_bit 16 a) = Inr seg" "length seg = 2"
    by (simp add: pack_be16_def drop_bit_eq_div)
  obtain r where "intel_init 0 4 seg Ellipsis = Inr r" "tag r = Some 4"
    using intel_init_ok [of 0 seg 4] s(2) by auto
  then show ?thesis using that assms s(1)
    by (simp add: intel_build_extended_linear_address_def)
qed

lemma crossing_iff:
  fixes a e :: int
  assumes "0 \<le> a" "a < 2 ^ 32" "a \<le> e" "e \<le> 2 ^ 32"
  shows "((e AND 0xFFFF) \<noteq> 0 \<and> (a XOR e) AND 0xFFFF0000 \<noteq> 0) =
         (e mod 65536 \<noteq> 0 \<and> a div 65536 \<noteq> e div 65536)"
proof (cases "e = 2 ^ 32")
  case True
  then show ?thesis by (simp add: and_ffff)
next
  case False
  then have "e < 2 ^ 32" using assms(4) by simp
  moreover have "0 \<le> e" using assms(1,3) by simp
  ultimately show ?thesis using xor_page [OF assms(1,2), of e] by (simp add: and_ffff)
qed

lemma within_pageI:
  assumes "e = address r + int (length (data r))" "e - address r < 65536"
    "e mod 65536 = 0 \<or> address r div 65536 = e div 65536"
  shows "within_page r"
  unfolding within_page_def
proof (intro allI impI)
  fix i assume "i < length (data r)"
  then show "(address r + int i) div 65536 = address r div 65536"
    using assms by (intro page_same [of "address r" e]) auto
qed

lemma intel_split_loop_ok:
  assumes "0 \<le> addr" "addr + int (length (concat chunks)) \<le> 2 ^ 32"
    "chunks = [] \<or> addr < 2 ^ 32"
    "\<forall>c\<in>set chunks. length c < 65536" "\<forall>c\<in>set (tl chunks). c \<noteq> []"
  shows "\<exists>records. intel_split_loop addr old chunks = Inr records \<and>
     contiguous addr (map record_block (filter intel_is_data records)) \<and>
     concat (map data (filter intel_is_data records)) = concat chunks \<and>
     (\<forall>r\<in>set records. intel_is_data r \<longrightarrow> within_page r)"
  using assms
proof (induction chunks arbitrary: addr old)
  case Nil
  show ?case by simp
next
  case (Cons chunk chunks)
  let ?len = "int (length chunk)"
  let ?e = "addr + ?len"
  have a: "0 \<le> addr" "addr < 2 ^ 32" "?e \<le> 2 ^ 32" "?len < 65536" "addr \<le> ?e"
    using Cons.prems by auto
  have all_ne: "\<forall>c\<in>set chunks. c \<noteq> []" using Cons.prems(5) by simp
  have ne: "chunks \<noteq> [] \<Longrightarrow> 0 < length (concat chunks)"
    using all_ne by (cases chunks) auto
  have rest_pre: "0 \<le> ?e" "?e + int (length (concat chunks)) \<le> 2 ^ 32"
    "chunks = [] \<or> ?e < 2 ^ 32"
    "\<forall>c\<in>set chunks. length c < 65536" "\<forall>c\<in>set (tl chunks). c \<noteq> []"
  proof -
    show "0 \<le> ?e" using a by simp
    show "?e + int (length (concat chunks)) \<le> 2 ^ 32" using Cons.prems(2) by simp
    show "chunks = [] \<or> ?e < 2 ^ 32"
    proof (cases "chunks = []")
      case False
      then have "0 < int (length (concat chunks))" using ne by simp
      moreover have "addr + ?len + int (length (concat chunks)) \<le> 2 ^ 32"
        using Cons.prems(2) by simp
      ultimately have "?e < 2 ^ 32" by linarith
      then show ?thesis by simp
    qed simp
    show "\<forall>c\<in>set chunks. length c < 65536" using Cons.prems(4) by simp
    show "\<forall>c\<in>set (tl chunks). c \<noteq> []" using all_ne by (cases chunks) auto
  qed
  have IH: "\<And>old'. \<exists>records. intel_split_loop ?e old' chunks = Inr records \<and>
     contiguous ?e (map record_block (filter intel_is_data records)) \<and>
     concat (map data (filter intel_is_data records)) = concat chunks \<and>
     (\<forall>r\<in>set records. intel_is_data r \<longrightarrow> within_page r)"
    using rest_pre by (intro Cons.IH) assumption+
  show ?case
  proof (cases "?e mod 65536 \<noteq> 0 \<and> addr div 65536 \<noteq> ?e div 65536")
    case True
    define pivot where "pivot = ?len - ?e mod 65536"
    have mp: "0 < ?e mod 65536" using True by (simp add: less_le)
    have p: "0 < pivot" "pivot < ?len"
      using page_cross [of addr ?e] True a mp by (simp_all add: pivot_def)
    have b: "addr + pivot = ?e - ?e mod 65536" by (simp add: pivot_def)
    have cond: "(?e AND 0xFFFF) \<noteq> 0 \<and> (addr XOR ?e) AND 0xFFFF0000 \<noteq> 0"
      using crossing_iff [OF a(1,2,5,3)] True by simp
    have l1: "int (length (take (nat pivot) chunk)) = pivot" using p by simp
    have l3: "int (length (drop (nat pivot) chunk)) = ?e mod 65536" using p by (simp add: pivot_def)
    obtain r1 where r1: "intel_build_data addr (take (nat pivot) chunk) = Inr r1"
      "address r1 = addr" "tag r1 = Some 0" "data r1 = take (nat pivot) chunk"
      using intel_build_data_ok [of addr "take (nat pivot) chunk"] a p l1 by auto
    have b32: "addr + pivot < 2 ^ 32" using a p by simp
    obtain r2 where r2: "intel_build_extended_linear_address (addr + pivot) = Inr r2"
      "tag r2 = Some 4"
      using intel_ela_ok [of "addr + pivot"] a p b32 by auto
    obtain r3 where r3: "intel_build_data (addr + pivot) (drop (nat pivot) chunk) = Inr r3"
      "address r3 = addr + pivot" "tag r3 = Some 0" "data r3 = drop (nat pivot) chunk"
      using intel_build_data_ok [of "addr + pivot" "drop (nat pivot) chunk"] a p b32 l3
      by (auto simp: pivot_def)
    obtain rest where rest: "intel_split_loop ?e (addr + pivot) chunks = Inr rest"
      "contiguous ?e (map record_block (filter intel_is_data rest))"
      "concat (map data (filter intel_is_data rest)) = concat chunks"
      "\<forall>r\<in>set rest. intel_is_data r \<longrightarrow> within_page r"
      using IH [of "addr + pivot"] by blast
    have e': "addr + pivot + (?e AND 0xFFFF) = ?e" by (simp add: and_ffff pivot_def)
    have eq: "intel_split_loop addr old (chunk # chunks) = Inr (r1 # r2 # r3 # rest)"
      using cond r1(1) r2(1) r3(1) rest(1) p e'
      by (simp add: Let_def slice_to_def slice_from_def pivot_def)
    have w1: "within_page r1"
      by (rule within_pageI [of "addr + pivot"])
         (use r1 l1 a p in \<open>simp_all add: b page_boundary\<close>)
    have "(?e - ?e mod 65536) div 65536 = ?e div 65536"
      by (simp add: minus_mod_eq_mult_div)
    then have w3: "within_page r3"
      by (intro within_pageI [of ?e])
         (use r3 l3 a p in \<open>simp_all add: b\<close>)
    have "contiguous addr (map record_block (filter intel_is_data (r1 # r2 # r3 # rest)))"
      using r1 r2 r3 rest(2) l1 l3 p
      by (simp add: intel_is_data_def record_block_def block_endex_def pivot_def)
    moreover have "concat (map data (filter intel_is_data (r1 # r2 # r3 # rest)))
        = concat (chunk # chunks)"
      using r1 r2 r3 rest(3) by (simp add: intel_is_data_def)
    moreover have "\<forall>r\<in>set (r1 # r2 # r3 # rest). intel_is_data r \<longrightarrow> within_page r"
      using w1 w3 r2 rest(4) by (auto simp: intel_is_data_def)
    ultimately show ?thesis using eq by blast
  next
    case False
    have cond: "\<not> ((?e AND 0xFFFF) \<noteq> 0 \<and> (addr XOR ?e) AND 0xFFFF0000 \<noteq> 0)"
      using crossing_iff [OF a(1,2,5,3)] False by simp
    obtain ra where ra: "intel_build_extended_linear_address addr = Inr ra" "tag ra = Some 4"
      using intel_ela_ok [OF a(1,2)] by blast
    define elas where "elas = (if (addr XOR old) AND 0xFFFF0000 \<noteq> 0 then [ra] else [])"
    have elas:
      "(if (addr XOR old) AND 0xFFFF0000 \<noteq> 0
        then (case intel_build_extended_linear_address addr of
                Inl e \<Rightarrow> Inl e | Inr r \<Rightarrow> Inr [r])
        else Inr []) = Inr elas" "\<forall>r\<in>set elas. tag r = Some 4"
      using ra by (simp_all add: elas_def)
    obtain r where r: "intel_build_data addr chunk = Inr r"
      "address r = addr" "tag r = Some 0" "data r = chunk"
      using intel_build_data_ok [of addr chunk] a by auto
    obtain rest where rest: "intel_split_loop ?e addr chunks = Inr rest"
      "contiguous ?e (map record_block (filter intel_is_data rest))"
      "concat (map data (filter intel_is_data rest)) = concat chunks"
      "\<forall>r\<in>set rest. intel_is_data r \<longrightarrow> within_page r"
      using IH [of addr] by blast
    have eq: "intel_split_loop addr old (chunk # chunks) = Inr (elas @ r # rest)"
      using elas(1) r(1) rest(1) by (simp add: Let_def if_not_P [OF cond])
    have fe: "filter intel_is_data elas = []"
      using elas(2) by (auto simp: intel_is_data_def filter_empty_conv)
    have w: "within_page r"
      by (rule within_pageI [of ?e]) (use r a False in auto)
    have "contiguous addr (map record_block (filter intel_is_data (elas @ r # rest)))"
      using r rest(2) fe by (simp add: intel_is_data_def record_block_def block_endex_def)
    moreover have "concat (map data (filter intel_is_data (elas @ r # rest)))
        = concat (chunk # chunks)"
      using r rest(3) fe by (simp add: intel_is_data_def)
    moreover have "\<forall>r\<in>set (elas @ r # rest). intel_is_data r \<longrightarrow> within_page r"
      using w elas(2) rest(4) by (auto simp: intel_is_data_def)
    ultimately show ?thesis using eq by blast
  qed
qed

lemma intel_terminate_ok:
  assumes "0 \<le> s" "s < 2 ^ 32"
  obtains r1 r2 r3 where "intel_terminate s = Inr [r1, r2, r3]"
    "tag r1 = Some 4" "tag r2 = Some 5" "tag r3 = Some 1"
proof -
  obtain r1 where r1: "intel_build_extended_linear_address 0 = Inr r1" "tag r1 = Some 4"
    using intel_ela_ok [of 0] by auto
  obtain packed where pk: "pack_be32 s = Inr packed" "length packed = 4"
    using assms by (simp add: pack_be32_def)
  obtain r2 where "intel_init 0 5 packed Ellipsis = Inr r2" "tag r2 = Some 5"
    using intel_init_ok [of 0 packed 5] pk(2) by auto
  then have r2: "intel_build_start_linear_address s = Inr r2" "tag r2 = Some 5"
    using assms pk(1) by (simp_all add: intel_build_start_linear_address_def)
  obtain r3 where r3: "intel_build_end_of_file = Inr r3" "tag r3 = Some 1"
    using intel_init_ok [of 0 "[]" 1] by (auto simp: intel_build_end_of_file_def)
  have "intel_terminate s = Inr [r1, r2, r3]"
    by (simp add: intel_terminate_def r1(1) r2(1) r3(1))
  then show ?thesis using that r1(2) r2(2) r3(2) by blast
qed

section \<open>Merging blocks that follow each other\<close>

lemma clear_before:
  assumes "\<forall>c\<in>set acc. snd c \<noteq> [] \<and> block_endex c \<le> s" "s \<le> e"
  shows "clear acc s e = acc"
  using assms
proof (induction acc)
  case Nil
  show ?case by simp
next
  case (Cons c acc)
  obtain cs items where c: "c = (cs, items)" by (cases c)
  have h: "items \<noteq> []" "cs + int (length items) \<le> s"
    using Cons.prems(1) by (simp_all add: c block_endex_def)
  then have "0 < int (length items)" by simp
  then have lt: "cs < s" using h(2) by linarith
  have "int (length items) \<le> s - cs" using h(2) by linarith
  then have "length items \<le> nat (s - cs)" by linarith
  then have tk: "take (nat (s - cs)) items = items" by simp
  have "\<not> e < cs + int (length items)" using h(2) Cons.prems(2) by linarith
  then show ?case using Cons lt tk by (simp add: c)
qed

lemma insert_block_after:
  assumes "\<forall>c\<in>set acc. fst c \<le> fst b"
  shows "insert_block b acc = acc @ [b]"
  using assms by (induction acc) auto

lemma write_block_after:
  assumes "\<forall>c\<in>set acc. snd c \<noteq> [] \<and> block_endex c \<le> fst b" "snd b \<noteq> []"
  shows "write_block acc b = acc @ [b]"
proof -
  have "fst b \<le> block_endex b" by (simp add: block_endex_def)
  then have "clear acc (fst b) (block_endex b) = acc"
    using assms(1) by (rule clear_before [rotated])
  moreover have "\<forall>c\<in>set acc. fst c \<le> fst b"
  proof
    fix c assume "c \<in> set acc"
    then have "block_endex c \<le> fst b" using assms(1) by blast
    then show "fst c \<le> fst b" by (simp add: block_endex_def)
  qed
  ultimately show ?thesis using assms(2) by (simp add: write_block_def insert_block_after)
qed

lemma foldl_write_block_contiguous:
  assumes "contiguous a bs" "\<forall>c\<in>set acc. snd c \<noteq> [] \<and> block_endex c \<le> a"
  shows "foldl write_block acc bs = acc @ filter (\<lambda>b. snd b \<noteq> []) bs"
  using assms
proof (induction bs arbitrary: acc a)
  case Nil
  show ?case by simp
next
  case (Cons b bs)
  have b: "fst b = a" "contiguous (block_endex b) bs" using Cons.prems(1) by simp_all
  show ?case
  proof (cases "snd b = []")
    case True
    then have "block_endex b = a" using b(1) by (simp add: block_endex_def)
    then have "foldl write_block acc bs = acc @ filter (\<lambda>b. snd b \<noteq> []) bs"
      using Cons.IH [of a acc] b(2) Cons.prems(2) by simp
    moreover have "write_block acc b = acc" using True by (simp add: write_block_def)
    ultimately show ?thesis using True by simp
  next
    case False
    have w: "write_block acc b = acc @ [b]"
      using Cons.prems(2) False b(1) by (intro write_block_after) simp_all
    have "a \<le> block_endex b" using b(1) by (simp add: block_endex_def)
    then have "\<forall>c\<in>set (acc @ [b]). snd c \<noteq> [] \<and> block_endex c \<le> block_endex b"
      using Cons.prems(2) False by auto
    then have "foldl write_block (acc @ [b]) bs = (acc @ [b]) @ filter (\<lambda>b. snd b \<noteq> []) bs"
      using Cons.IH [of "block_endex b" "acc @ [b]"] b(2) by blast
    then show ?thesis using w False by simp
  qed
qed

lemma merge_filter_nonempty: "merge (filter (\<lambda>b. snd b \<noteq> []) bs) = merge bs"
  by (induction bs rule: merge.induct) auto

lemma merge_contiguous:
  "contiguous a bs \<Longrightarrow>
   merge bs = (if concat (map snd bs) = [] then [] else [(a, concat (map snd bs))])"
proof (induction bs arbitrary: a)
  case Nil
  show ?case by simp
next
  case (Cons b bs)
  obtain s items where b: "b = (s, items)" by (cases b)
  have c: "s = a" "contiguous (a + int (length items)) bs"
    using Cons.prems by (auto simp: b block_endex_def)
  show ?case
  proof (cases "items = []")
    case True
    then show ?thesis using Cons.IH [of a] c by (simp add: b)
  next
    case False
    then show ?thesis using Cons.IH [OF c(2)] c(1) by (simp add: b)
  qed
qed

lemma records_to_blocks_contiguous:
  assumes "contiguous a (map record_block (filter isd rs))"
    "concat (map data (filter isd rs)) = d" "d \<noteq> []"
  shows "records_to_blocks isd rs = [(a, d)]"
proof -
  let ?bs = "map record_block (filter isd rs)"
  have cd: "concat (map snd ?bs) = d"
    using assms(2) by (simp add: record_block_def comp_def)
  have "union_blocks [?bs] = filter (\<lambda>b. snd b \<noteq> []) ?bs"
    using foldl_write_block_contiguous [OF assms(1), of "[]"] by (simp add: union_blocks_def)
  then have "records_to_blocks isd rs = merge ?bs"
    by (simp add: records_to_blocks_def get_data_records_def merge_filter_nonempty)
  moreover have "merge ?bs = (if d = [] then [] else [(a, d)])"
    using merge_contiguous [OF assms(1)] by (simp only: cd)
  ultimately show ?thesis using assms(3) by simp
qed

section \<open>The data records of \<open>split\<close> follow each other\<close>

lemma intel_split_ok:
  assumes "0 \<le> addr" "addr < 2 ^ 32" "addr + int (length dat) \<le> 2 ^ 32"
    "0 < columns" "columns < 255"
    "case start of None \<Rightarrow> True | Some s \<Rightarrow> 0 \<le> s \<and> s < 2 ^ 32"
  shows "\<exists>records. intel_split dat addr columns align standalone start = Inr records \<and>
     contiguous addr (map record_block (filter intel_is_data records)) \<and>
     concat (map data (filter intel_is_data records)) = dat \<and>
     (\<forall>r\<in>set records. intel_is_data r \<longrightarrow> within_page r)"
proof -
  define chunks where "chunks = chop dat columns (if align then addr mod columns else 0)"
  have cc: "concat chunks = dat" using assms(4) by (simp add: chunks_def concat_chop)
  have cl: "\<forall>c\<in>set chunks. length c < 65536"
  proof
    fix c assume "c \<in> set chunks"
    then have "int (length c) \<le> columns"
      unfolding chunks_def using assms(4) by (rule chop_chunk_length [rotated])
    then show "length c < 65536" using assms(5) by simp
  qed
  have ct: "\<forall>c\<in>set (tl chunks). c \<noteq> []"
    unfolding chunks_def using chop_tl_nonempty by blast
  obtain records where rs: "intel_split_loop addr 0 chunks = Inr records"
    "contiguous addr (map record_block (filter intel_is_data records))"
    "concat (map data (filter intel_is_data records)) = dat"
    "\<forall>r\<in>set records. intel_is_data r \<longrightarrow> within_page r"
    using intel_split_loop_ok [of addr chunks 0] assms(1,2,3) cc cl ct by auto
  define s where "s = (case start of None \<Rightarrow> addr | Some s \<Rightarrow> s)"
  have s: "0 \<le> s" "s < 2 ^ 32" using assms(1,2,6) by (auto simp: s_def split: option.splits)
  obtain r1 r2 r3 where t: "intel_terminate s = Inr [r1, r2, r3]"
    "tag r1 = Some 4" "tag r2 = Some 5" "tag r3 = Some 1"
    using intel_terminate_ok [OF s] by blast
  define out where "out = (if standalone then records @ [r1, r2, r3] else records)"
  have eq: "intel_split dat addr columns align standalone start = Inr out"
    using assms(1-5) rs(1) t(1)
    by (simp add: intel_split_def Let_def chunks_def [symmetric] s_def [symmetric] out_def)
  have f: "filter intel_is_data out = filter intel_is_data records"
    using t(2-4) by (simp add: out_def intel_is_data_def)
  have "\<forall>r\<in>set out. intel_is_data r \<longrightarrow> within_page r"
    using rs(4) t(2-4) by (auto simp: out_def intel_is_data_def)
  then show ?thesis using eq f rs(2,3) by auto
qed

text \<open>
  C10.  For an address and a size within 32 bits, \<open>0 < columns < 255\<close> and a program
  start address that is absent or within 32 bits, \<open>Record.split\<close> of the Intel format
  returns its records, and every byte of every DATA record among them has the high 16
  address bits of the record's first byte; in particular the last byte
  \<open>address + len(data) - 1\<close> of a non-empty DATA record has.
\<close>

theorem intel_split_data_within_page:
  assumes "0 \<le> addr" "addr < 2 ^ 32" "addr + int (length dat) \<le> 2 ^ 32"
    "0 < columns" "columns < 255"
    "case start of None \<Rightarrow> True | Some s \<Rightarrow> 0 \<le> s \<and> s < 2 ^ 32"
  shows "\<exists>records. intel_split dat addr columns align standalone start = Inr records \<and>
     (\<forall>r\<in>set records. intel_is_data r \<longrightarrow>
        (\<forall>i<length (data r). drop_bit 16 (address r + int i) = drop_bit 16 (address r)) \<and>
        (data r \<noteq> [] \<longrightarrow>
           drop_bit 16 (address r + int (length (data r)) - 1) = drop_bit 16 (address r)))"
proof -
  from intel_split_ok [OF assms]
  obtain out where eq: "intel_split dat addr columns align standalone start = Inr out"
    and wp: "\<forall>r\<in>set out. intel_is_data r \<longrightarrow> within_page r"
    by blast
  have "\<forall>r\<in>set out. intel_is_data r \<longrightarrow>
        (\<forall>i<length (data r). drop_bit 16 (address r + int i) = drop_bit 16 (address r)) \<and>
        (data r \<noteq> [] \<longrightarrow>
           drop_bit 16 (address r + int (length (data r)) - 1) = drop_bit 16 (address r))"
  proof (intro ballI impI conjI allI)
    fix r i
    assume "r \<in> set out" "intel_is_data r" "i < length (data r)"
    then have "within_page r" using wp by blast
    then show "drop_bit 16 (address r + int i) = drop_bit 16 (address r)"
      using \<open>i < length (data r)\<close> by (simp add: within_page_def drop_bit_eq_div)
  next
    fix r
    assume "r \<in> set out" "intel_is_data r" and n: "data r \<noteq> []"
    then have w: "within_page r" using wp by blast
    have "length (data r) - 1 < length (data r)" using n by simp
    then have "(address r + int (length (data r) - 1)) div 65536 = address r div 65536"
      using w unfolding within_page_def by blast
    moreover have "int (length (data r) - 1) = int (length (data r)) - 1"
      using n by (cases "data r") simp_all
    ultimately have "(address r + int (length (data r)) - 1) div 65536 = address r div 65536"
      by (simp add: algebra_simps)
    then show "drop_bit 16 (address r + int (length (data r)) - 1) = drop_bit 16 (address r)"
      by (simp add: drop_bit_eq_div)
  qed
  then show ?thesis using eq by blast
qed

theorem intel_split_data_within_page_witness:
  "\<exists>records. intel_split (replicate 32 0x41) 0x0FFF8 16 True True None = Inr records \<and>
     (\<forall>r\<in>set records. intel_is_data r \<longrightarrow>
        (\<forall>i<length (data r). drop_bit 16 (address r + int i) = drop_bit 16 (address r)) \<and>
        (data r \<noteq> [] \<longrightarrow>
           drop_bit 16 (address r + int (length (data r)) - 1) = drop_bit 16 (address r)))"
  by (rule intel_split_data_within_page) simp_all

section \<open>Intel HEX: splitting across a 64 KiB boundary\<close>

lemma intel_split_loop_cut:
  assumes "0 \<le> addr" "addr < 2 ^ 32" "addr + int (length chunk) \<le> 2 ^ 32"
    "length chunk < 65536"
    "(addr + int (length chunk)) mod 65536 \<noteq> 0"
    "addr div 65536 \<noteq> (addr + int (length chunk)) div 65536"
    "pivot = int (length chunk) - (addr + int (length chunk)) mod 65536"
    "intel_split_loop (addr + int (length chunk)) (addr + pivot) chunks = Inr rest"
  shows "\<exists>r1 r2 r3. intel_split_loop addr old (chunk # chunks) = Inr (r1 # r2 # r3 # rest) \<and>
      0 < pivot \<and> pivot < int (length chunk) \<and>
      address r1 = addr \<and> tag r1 = Some 0 \<and> data r1 = take (nat pivot) chunk \<and>
      intel_build_extended_linear_address (addr + pivot) = Inr r2 \<and>
      address r3 = addr + pivot \<and> tag r3 = Some 0 \<and> data r3 = drop (nat pivot) chunk"
proof -
  let ?len = "int (length chunk)"
  let ?e = "addr + ?len"
  have a: "0 \<le> addr" "addr < 2 ^ 32" "?e \<le> 2 ^ 32" "?len < 65536" "addr \<le> ?e"
    using assms(1-4) by auto
  have mp: "0 < ?e mod 65536" using assms(5) by (simp add: less_le)
  have p: "0 < pivot" "pivot < ?len"
    using page_cross [of addr ?e] assms(6) a mp by (simp_all add: assms(7))
  have cond: "(?e AND 0xFFFF) \<noteq> 0 \<and> (addr XOR ?e) AND 0xFFFF0000 \<noteq> 0"
    using crossing_iff [OF a(1,2,5,3)] assms(5,6) by simp
  have l1: "int (length (take (nat pivot) chunk)) = pivot" using p by simp
  have l3: "int (length (drop (nat pivot) chunk)) = ?e mod 65536"
    using p by (simp add: assms(7))
  obtain r1 where r1: "intel_build_data addr (take (nat pivot) chunk) = Inr r1"
    "address r1 = addr" "tag r1 = Some 0" "data r1 = take (nat pivot) chunk"
    using intel_build_data_ok [of addr "take (nat pivot) chunk"] a p l1 by auto
  have b32: "addr + pivot < 2 ^ 32" using a p by simp
  obtain r2 where r2: "intel_build_extended_linear_address (addr + pivot) = Inr r2"
    using intel_ela_ok [of "addr + pivot"] a p b32 by auto
  obtain r3 where r3: "intel_build_data (addr + pivot) (drop (nat pivot) chunk) = Inr r3"
    "address r3 = addr + pivot" "tag r3 = Some 0" "data r3 = drop (nat pivot) chunk"
    using intel_build_data_ok [of "addr + pivot" "drop (nat pivot) chunk"] a p b32 l3
    by (auto simp: assms(7))
  have e': "addr + pivot + (?e AND 0xFFFF) = ?e" by (simp add: and_ffff assms(7))
  have eq: "intel_split_loop addr old (chunk # chunks) = Inr (r1 # r2 # r3 # rest)"
    using cond r1(1) r2(1) r3(1) assms(8) p e'
    by (simp add: Let_def slice_to_def slice_from_def assms(7))
  show ?thesis using eq p r1(2,3,4) r2 r3(2,3,4) by blast
qed

lemma intel_split_loop_keep:
  assumes "0 \<le> addr" "addr < 2 ^ 32" "addr + int (length chunk) \<le> 2 ^ 32"
    "0 \<le> old" "old < 2 ^ 32"
    "\<not> ((addr + int (length chunk)) mod 65536 \<noteq> 0 \<and>
        addr div 65536 \<noteq> (addr + int (length chunk)) div 65536)"
    "intel_split_loop (addr + int (length chunk)) addr chunks = Inr rest"
  shows "\<exists>elas r. intel_split_loop addr old (chunk # chunks) = Inr (elas @ r # rest) \<and>
      (if addr div 65536 \<noteq> old div 65536
       then \<exists>ra. intel_build_extended_linear_address addr = Inr ra \<and> elas = [ra]
       else elas = []) \<and>
      address r = addr \<and> tag r = Some 0 \<and> data r = chunk"
proof -
  let ?len = "int (length chunk)"
  let ?e = "addr + ?len"
  have a: "0 \<le> addr" "addr < 2 ^ 32" "?e \<le> 2 ^ 32" "addr \<le> ?e"
    using assms(1-3) by auto
  have cond: "\<not> ((?e AND 0xFFFF) \<noteq> 0 \<and> (addr XOR ?e) AND 0xFFFF0000 \<noteq> 0)"
    using crossing_iff [OF a(1,2,4,3)] assms(6) by simp
  obtain ra where ra: "intel_build_extended_linear_address addr = Inr ra"
    using intel_ela_ok [OF a(1,2)] by blast
  have x: "((addr XOR old) AND 0xFFFF0000 \<noteq> 0) = (addr div 65536 \<noteq> old div 65536)"
    using xor_page [OF a(1,2) assms(4,5)] by simp
  define elas where "elas = (if addr div 65536 \<noteq> old div 65536 then [ra] else [])"
  have elas:
    "(if (addr XOR old) AND 0xFFFF0000 \<noteq> 0
      then (case intel_build_extended_linear_address addr of
              Inl e \<Rightarrow> Inl e | Inr r \<Rightarrow> Inr [r])
      else Inr []) = Inr elas"
    using ra by (simp add: elas_def x)
  obtain r where r: "intel_build_data addr chunk = Inr r"
    "address r = addr" "tag r = Some 0" "data r = chunk"
    using intel_build_data_ok [of addr chunk] a by auto
  have eq: "intel_split_loop addr old (chunk # chunks) = Inr (elas @ r # rest)"
    using elas r(1) assms(7) by (simp add: Let_def if_not_P [OF cond])
  have "if addr div 65536 \<noteq> old div 65536
       then \<exists>ra. intel_build_extended_linear_address addr = Inr ra \<and> elas = [ra]
       else elas = []"
    using ra by (simp add: elas_def)
  then show ?thesis using eq r(2,3,4) by blast
qed

lemma ela_65536:
  "intel_build_extended_linear_address 65536 =
     Inr \<lparr>address = 0, tag = Some 4, data = [0, 1], count = 2, checksum = Some 0xF9\<rparr>"
  by code_simp

lemma intel_split_loop_crossing:
  assumes "0 \<le> addr" "addr < 65536" "65536 < addr + int (length (concat chunks))"
    "addr + int (length (concat chunks)) \<le> 2 ^ 32" "0 \<le> old" "old < 65536"
    "\<forall>c\<in>set chunks. length c < 65536" "\<forall>c\<in>set (tl chunks). c \<noteq> []"
  shows "\<exists>pre r1 r2 post n. intel_split_loop addr old chunks =
        Inr (pre @ r1 #
             \<lparr>address = 0, tag = Some 4, data = [0, 1], count = 2, checksum = Some 0xF9\<rparr> #
             r2 # post) \<and>
      (\<forall>r\<in>set pre. tag r = Some 0) \<and>
      concat (map data pre) @ data r1 = take (nat (65536 - addr)) (concat chunks) \<and>
      tag r1 = Some 0 \<and> data r1 \<noteq> [] \<and> address r1 + int (length (data r1)) = 65536 \<and>
      tag r2 = Some 0 \<and> address r2 = 65536 \<and> 0 < n \<and>
      data r2 = take n (drop (nat (65536 - addr)) (concat chunks))"
  using assms
proof (induction chunks arbitrary: addr old)
  case Nil
  then show ?case by simp
next
  case (Cons chunk chunks)
  let ?ela = "\<lparr>address = 0, tag = Some 4, data = [0, 1], count = 2, checksum = Some 0xF9\<rparr>"
  let ?len = "int (length chunk)"
  let ?e = "addr + ?len"
  define m where "m = nat (65536 - addr)"
  have len: "?len < 65536" using Cons.prems(7) by simp
  have a: "0 \<le> addr" "addr < 2 ^ 32" "?e \<le> 2 ^ 32" "0 \<le> old" "old < 2 ^ 32"
    using Cons.prems(1,2,4,5,6) by simp_all
  have tot: "65536 < ?e + int (length (concat chunks))"
    "?e + int (length (concat chunks)) \<le> 2 ^ 32"
    using Cons.prems(3,4) by simp_all
  have all_ne: "\<forall>c\<in>set chunks. c \<noteq> []" using Cons.prems(8) by simp
  have small: "\<forall>c\<in>set chunks. length c < 65536" using Cons.prems(7) by simp
  have tl_ne: "\<forall>c\<in>set (tl chunks). c \<noteq> []"
    using all_ne by (cases chunks) simp_all
  have d0: "addr div 65536 = 0" "old div 65536 = 0"
    using Cons.prems(1,2,5,6) by simp_all
  have ok: "\<exists>records. intel_split_loop ?e o' chunks = Inr records" for o'
  proof -
    have "chunks = [] \<or> ?e < 2 ^ 32"
    proof (cases "chunks = []")
      case True
      then show ?thesis by simp
    next
      case False
      then obtain c cs where c: "chunks = c # cs" by (cases chunks) auto
      then have "c \<noteq> []" using all_ne by simp
      then have "0 < length (concat chunks)" by (cases c) (simp_all add: \<open>chunks = c # cs\<close>)
      then have "0 < int (length (concat chunks))" by simp
      then show ?thesis using tot(2) by linarith
    qed
    moreover have "0 \<le> ?e" using a(1) by simp
    ultimately show ?thesis
      using intel_split_loop_ok [of ?e chunks o'] tot(2) small tl_ne by blast
  qed
  consider (before) "?e < 65536" | (at) "?e = 65536" | (over) "65536 < ?e" by linarith
  then show ?case
  proof cases
    case before
    have e0: "?e div 65536 = 0" using before a(1) by simp
    have nocut: "\<not> (?e mod 65536 \<noteq> 0 \<and> addr div 65536 \<noteq> ?e div 65536)"
      by (simp add: d0 e0)
    have ih_pre: "0 \<le> ?e" "?e < 65536" "0 \<le> addr" "addr < 65536"
      using before Cons.prems(1,2) by simp_all
    from Cons.IH [OF ih_pre(1,2) tot ih_pre(3,4) small tl_ne]
    obtain pre r1 r2 post n where ih:
      "intel_split_loop ?e addr chunks = Inr (pre @ r1 # ?ela # r2 # post)"
      "\<forall>r\<in>set pre. tag r = Some 0"
      "concat (map data pre) @ data r1 = take (nat (65536 - ?e)) (concat chunks)"
      "tag r1 = Some 0" "data r1 \<noteq> []" "address r1 + int (length (data r1)) = 65536"
      "tag r2 = Some 0" "address r2 = 65536" "0 < n"
      "data r2 = take n (drop (nat (65536 - ?e)) (concat chunks))"
      by blast
    from intel_split_loop_keep [OF a(1,2,3,4,5) nocut ih(1)]
    obtain elas r where k:
      "intel_split_loop addr old (chunk # chunks) = Inr (elas @ r # pre @ r1 # ?ela # r2 # post)"
      "if addr div 65536 \<noteq> old div 65536
       then \<exists>ra. intel_build_extended_linear_address addr = Inr ra \<and> elas = [ra]
       else elas = []"
      "address r = addr" "tag r = Some 0" "data r = chunk"
      by blast
    have el: "elas = []" using k(2) by (simp add: d0)
    have mm: "m = length chunk + nat (65536 - ?e)" using before by (simp add: m_def)
    have eq: "intel_split_loop addr old (chunk # chunks) =
        Inr ((r # pre) @ r1 # ?ela # r2 # post)"
      using k(1) by (simp add: el)
    have p1: "\<forall>x\<in>set (r # pre). tag x = Some 0" using ih(2) k(4) by simp
    have p2: "concat (map data (r # pre)) @ data r1 = take m (concat (chunk # chunks))"
      using ih(3) by (simp add: k(5) mm)
    have p3: "data r2 = take n (drop m (concat (chunk # chunks)))"
      using ih(10) by (simp add: mm)
    show ?thesis
      using eq p1 p2 ih(4,5,6,7,8,9) p3 unfolding m_def by blast
  next
    case at
    have nocut: "\<not> (?e mod 65536 \<noteq> 0 \<and> addr div 65536 \<noteq> ?e div 65536)"
      by (simp add: at)
    have rest_pos: "0 < int (length (concat chunks))" using tot(1) at by simp
    then obtain c2 cs where c2: "chunks = c2 # cs" by (cases chunks) auto
    have c2ne: "c2 \<noteq> []" using all_ne c2 by simp
    have l2: "0 < int (length c2)" "int (length c2) < 65536"
      using c2ne small c2 by simp_all
    have e2: "65536 + int (length c2) \<le> 2 ^ 32" using tot(2) at by (simp add: c2)
    have nocut2: "\<not> ((65536 + int (length c2)) mod 65536 \<noteq> 0 \<and>
        (65536::int) div 65536 \<noteq> (65536 + int (length c2)) div 65536)"
    proof -
      have "(65536 + int (length c2)) div 65536 = 1"
        using l2 by (intro page_eqI) simp_all
      then show ?thesis by simp
    qed
    have "\<exists>records. intel_split_loop (65536 + int (length c2)) 65536 cs = Inr records"
    proof -
      have sm: "\<forall>c\<in>set cs. length c < 65536" using small c2 by simp
      have tn: "\<forall>c\<in>set (tl cs). c \<noteq> []" using all_ne c2 by (cases cs) simp_all
      have ne: "\<forall>c\<in>set cs. c \<noteq> []" using all_ne c2 by simp
      have t2: "65536 + int (length c2) + int (length (concat cs)) \<le> 2 ^ 32"
        using tot(2) at by (simp add: c2)
      have "cs = [] \<or> 65536 + int (length c2) < 2 ^ 32"
      proof (cases "cs = []")
        case True
        then show ?thesis by simp
      next
        case False
        then obtain c3 cs' where c3: "cs = c3 # cs'" by (cases cs) auto
        then have "c3 \<noteq> []" using ne by simp
        then have "0 < length (concat cs)" by (cases c3) (simp_all add: c3)
        then have "0 < int (length (concat cs))" by simp
        then show ?thesis using t2 by linarith
      qed
      moreover have "0 \<le> 65536 + int (length c2)" by simp
      ultimately show ?thesis
        using intel_split_loop_ok [of "65536 + int (length c2)" cs 65536] t2 sm tn by blast
    qed
    then obtain post where post: "intel_split_loop (65536 + int (length c2)) 65536 cs = Inr post"
      by blast
    have a2: "(0::int) \<le> 65536" "(65536::int) < 2 ^ 32" by simp_all
    from intel_split_loop_keep [OF a2 e2 a(1,2) nocut2 post]
    obtain elas r2 where k2:
      "intel_split_loop 65536 addr (c2 # cs) = Inr (elas @ r2 # post)"
      "if (65536::int) div 65536 \<noteq> addr div 65536
       then \<exists>ra. intel_build_extended_linear_address 65536 = Inr ra \<and> elas = [ra]
       else elas = []"
      "address r2 = 65536" "tag r2 = Some 0" "data r2 = c2"
      by blast
    have el2: "elas = [?ela]" using k2(2) by (simp add: d0 ela_65536)
    have rest: "intel_split_loop ?e addr chunks = Inr (?ela # r2 # post)"
      using k2(1) by (simp add: el2 at c2)
    from intel_split_loop_keep [OF a(1,2,3,4,5) nocut rest]
    obtain elas1 r1 where k:
      "intel_split_loop addr old (chunk # chunks) = Inr (elas1 @ r1 # ?ela # r2 # post)"
      "if addr div 65536 \<noteq> old div 65536
       then \<exists>ra. intel_build_extended_linear_address addr = Inr ra \<and> elas1 = [ra]
       else elas1 = []"
      "address r1 = addr" "tag r1 = Some 0" "data r1 = chunk"
      by blast
    have el: "elas1 = []" using k(2) by (simp add: d0)
    have mm: "m = length chunk" using at by (simp add: m_def)
    have eq: "intel_split_loop addr old (chunk # chunks) = Inr ([] @ r1 # ?ela # r2 # post)"
      using k(1) by (simp add: el)
    have chunk_ne: "chunk \<noteq> []" using at Cons.prems(2) by auto
    have p2: "concat (map data []) @ data r1 = take m (concat (chunk # chunks))"
      by (simp add: k(5) mm)
    have p3: "data r2 = take (length c2) (drop m (concat (chunk # chunks)))"
      by (simp add: k2(5) mm c2)
    have p4: "address r1 + int (length (data r1)) = 65536" using at by (simp add: k(3,5))
    have p5: "data r1 \<noteq> []" using chunk_ne by (simp add: k(5))
    have p6: "0 < length c2" using c2ne by simp
    have p0: "\<forall>r\<in>set []. tag r = Some 0" by simp
    show ?thesis
      using eq p0 p2 k(4) p5 p4 k2(4,3) p6 p3 unfolding m_def by blast
  next
    case over
    have e1: "?e div 65536 = 1" using over len Cons.prems(2) by (intro page_eqI) simp_all
    have em: "?e mod 65536 = ?e - 65536"
    proof -
      have "?e mod 65536 = ?e - 65536 * (?e div 65536)"
        by (simp only: minus_mult_div_eq_mod)
      then show ?thesis by (simp add: e1)
    qed
    have cut: "?e mod 65536 \<noteq> 0" "addr div 65536 \<noteq> ?e div 65536"
      using over by (simp_all add: em d0 e1)
    define pivot where "pivot = ?len - ?e mod 65536"
    have pv: "pivot = 65536 - addr" by (simp add: pivot_def em)
    from ok [of "addr + pivot"] obtain post
      where post: "intel_split_loop ?e (addr + pivot) chunks = Inr post"
      by blast
    have len': "length chunk < 65536" using len by simp
    from intel_split_loop_cut [OF a(1,2,3) len' cut pivot_def post]
    obtain r1 r2 r3 where k:
      "intel_split_loop addr old (chunk # chunks) = Inr (r1 # r2 # r3 # post)"
      "0 < pivot" "pivot < ?len"
      "address r1 = addr" "tag r1 = Some 0" "data r1 = take (nat pivot) chunk"
      "intel_build_extended_linear_address (addr + pivot) = Inr r2"
      "address r3 = addr + pivot" "tag r3 = Some 0" "data r3 = drop (nat pivot) chunk"
      by blast
    have "addr + pivot = 65536" by (simp add: pv)
    then have r2: "r2 = ?ela" using k(7) by (simp add: ela_65536)
    have mp: "m = nat pivot" by (simp add: m_def pv)
    have mlt: "m < length chunk" using k(2,3) mp by simp
    have eq: "intel_split_loop addr old (chunk # chunks) = Inr ([] @ r1 # ?ela # r3 # post)"
      using k(1) by (simp add: r2)
    have p0: "\<forall>r\<in>set []. tag r = Some 0" by simp
    have p2: "concat (map data []) @ data r1 = take m (concat (chunk # chunks))"
      using mlt by (simp add: k(6) mp)
    have p3: "data r3 = take (length chunk - m) (drop m (concat (chunk # chunks)))"
      using mlt by (simp add: k(10) mp)
    have p4: "address r1 + int (length (data r1)) = 65536"
      using k(2,3) by (simp add: k(4,6) pv)
    have p5: "data r1 \<noteq> []" using k(2,3) by (auto simp: k(6))
    have p6: "0 < length chunk - m" using mlt by simp
    have p7: "address r3 = 65536" by (simp add: k(8) pv)
    show ?thesis
      using eq p0 p2 k(5) p5 p4 k(9) p7 p6 p3 unfolding m_def by blast
  qed
qed

text \<open>
  C9.  For every buffer that straddles \<open>0x10000\<close> (it starts below and ends above, within
  32 bits), every number of columns that \<open>Record.split\<close> of the Intel format accepts (16
  among them), aligned or not, the records that \<open>split\<close> yields contain, in this order, a
  non-empty DATA record that ends at \<open>0x10000\<close>, the EXTENDED_LINEAR_ADDRESS record of the
  segment 1, and a DATA record that starts at \<open>0x10000\<close>.  Only DATA records come before
  them; their data, followed by the data of the record that ends at \<open>0x10000\<close>, are the
  bytes of the buffer below \<open>0x10000\<close>, and the record that starts at \<open>0x10000\<close> holds
  the bytes that follow.  So it is for \<open>Record.split(b'A'*32, address=0x0FFF8)\<close>, whose
  records are listed with and without alignment.
\<close>

theorem intel_split_64k_crossing:
  assumes "0 \<le> addr" "addr < 0x10000" "0x10000 < addr + int (length dat)"
    "addr + int (length dat) \<le> 2 ^ 32" "0 < columns" "columns < 255"
    "case start of None \<Rightarrow> True | Some s \<Rightarrow> 0 \<le> s \<and> s < 2 ^ 32"
  shows "\<exists>pre r1 r2 post n.
      intel_split dat addr columns align standalone start =
        Inr (pre @ r1 #
             \<lparr>address = 0, tag = Some 4, data = [0, 1], count = 2, checksum = Some 0xF9\<rparr> #
             r2 # post) \<and>
      (\<forall>r\<in>set pre. tag r = Some 0) \<and>
      concat (map data pre) @ data r1 = take (nat (0x10000 - addr)) dat \<and>
      tag r1 = Some 0 \<and> data r1 \<noteq> [] \<and> address r1 + int (length (data r1)) = 0x10000 \<and>
      tag r2 = Some 0 \<and> address r2 = 0x10000 \<and> 0 < n \<and>
      data r2 = take n (drop (nat (0x10000 - addr)) dat)"
proof -
  let ?ela = "\<lparr>address = 0, tag = Some 4, data = [0, 1], count = 2, checksum = Some 0xF9\<rparr>"
  define chunks where "chunks = chop dat columns (if align then addr mod columns else 0)"
  have cc: "concat chunks = dat" using assms(5) by (simp add: chunks_def concat_chop)
  have cl: "\<forall>c\<in>set chunks. length c < 65536"
  proof
    fix c assume "c \<in> set chunks"
    then have "int (length c) \<le> columns"
      unfolding chunks_def using assms(5) by (rule chop_chunk_length [rotated])
    then show "length c < 65536" using assms(6) by simp
  qed
  have ct: "\<forall>c\<in>set (tl chunks). c \<noteq> []"
    unfolding chunks_def using chop_tl_nonempty by blast
  have a2: "addr < 65536" "65536 < addr + int (length (concat chunks))"
    "addr + int (length (concat chunks)) \<le> 2 ^ 32"
    using assms(2,3,4) by (simp_all add: cc)
  have z: "(0::int) \<le> 0" "(0::int) < 65536" by simp_all
  from intel_split_loop_crossing [OF assms(1) a2 z cl ct]
  obtain pre r1 r2 post n where l:
    "intel_split_loop addr 0 chunks = Inr (pre @ r1 # ?ela # r2 # post)"
    "\<forall>r\<in>set pre. tag r = Some 0"
    "concat (map data pre) @ data r1 = take (nat (65536 - addr)) (concat chunks)"
    "tag r1 = Some 0" "data r1 \<noteq> []" "address r1 + int (length (data r1)) = 65536"
    "tag r2 = Some 0" "address r2 = 65536" "0 < n"
    "data r2 = take n (drop (nat (65536 - addr)) (concat chunks))"
    by blast
  define s where "s = (case start of None \<Rightarrow> addr | Some s \<Rightarrow> s)"
  have a32: "addr < 2 ^ 32" using assms(2) by simp
  have s: "0 \<le> s" "s < 2 ^ 32"
    using assms(1,7) a32 by (auto simp: s_def split: option.splits)
  obtain t1 t2 t3 where t: "intel_terminate s = Inr [t1, t2, t3]"
    using intel_terminate_ok [OF s] by blast
  define post' where "post' = (if standalone then post @ [t1, t2, t3] else post)"
  have eq: "intel_split dat addr columns align standalone start =
      Inr (pre @ r1 # ?ela # r2 # post')"
    using assms(1,4,5,6) a32 l(1) t
    by (simp add: intel_split_def Let_def chunks_def [symmetric] s_def [symmetric] post'_def)
  have p2: "concat (map data pre) @ data r1 = take (nat (0x10000 - addr)) dat"
    using l(3) by (simp add: cc)
  have p3: "data r2 = take n (drop (nat (0x10000 - addr)) dat)"
    using l(10) by (simp add: cc)
  have p4: "address r1 + int (length (data r1)) = 0x10000" using l(6) by simp
  have p5: "address r2 = 0x10000" using l(8) by simp
  show ?thesis
    using eq l(2) p2 l(4,5) p4 l(7) p5 l(9) p3 by blast
qed

theorem intel_split_64k_crossing_witness:
  "intel_split (replicate 32 0x41) 0x0FFF8 16 True True None =
     Inr [\<lparr>address = 0xFFF8, tag = Some 0, data = replicate 8 0x41, count = 8,
            checksum = Some 0xF9\<rparr>,
          \<lparr>address = 0, tag = Some 4, data = [0, 1], count = 2, checksum = Some 0xF9\<rparr>,
          \<lparr>address = 0x10000, tag = Some 0, data = replicate 16 0x41, count = 16,
            checksum = Some 0xE0\<rparr>,
          \<lparr>address = 0x10010, tag = Some 0, data = replicate 8 0x41, count = 8,
            checksum = Some 0xE0\<rparr>,
          \<lparr>address = 0, tag = Some 4, data = [0, 0], count = 2, checksum = Some 0xFA\<rparr>,
          \<lparr>address = 0, tag = Some 5, data = [0, 0, 0xFF, 0xF8], count = 4,
            checksum = Some 0\<rparr>,
          \<lparr>address = 0, tag = Some 1, data = [], count = 0, checksum = Some 0xFF\<rparr>] \<and>
   intel_split (replicate 32 0x41) 0x0FFF8 16 False True None =
     Inr [\<lparr>address = 0xFFF8, tag = Some 0, data = replicate 8 0x41, count = 8,
            checksum = Some 0xF9\<rparr>,
          \<lparr>address = 0, tag = Some 4, data = [0, 1], count = 2, checksum = Some 0xF9\<rparr>,
          \<lparr>address = 0x10000, tag = Some 0, data = replicate 8 0x41, count = 8,
            checksum = Some 0xF0\<rparr>,
          \<lparr>address = 0x10008, tag = Some 0, data = replicate 16 0x41, count = 16,
            checksum = Some 0xD8\<rparr>,
          \<lparr>address = 0, tag = Some 4, data = [0, 0], count = 2, checksum = Some 0xFA\<rparr>,
          \<lparr>address = 0, tag = Some 5, data = [0, 0, 0xFF, 0xF8], count = 4,
            checksum = Some 0\<rparr>,
          \<lparr>address = 0, tag = Some 1, data = [], count = 0, checksum = Some 0xFF\<rparr>] \<and>
   (\<exists>pre r1 r2 post n.
      intel_split (replicate 32 0x41) 0x0FFF8 16 False True None =
        Inr (pre @ r1 #
             \<lparr>address = 0, tag = Some 4, data = [0, 1], count = 2, checksum = Some 0xF9\<rparr> #
             r2 # post) \<and>
      (\<forall>r\<in>set pre. tag r = Some 0) \<and>
      concat (map data pre) @ data r1 = take (nat (0x10000 - 0x0FFF8)) (replicate 32 0x41) \<and>
      tag r1 = Some 0 \<and> data r1 \<noteq> [] \<and> address r1 + int (length (data r1)) = 0x10000 \<and>
      tag r2 = Some 0 \<and> address r2 = 0x10000 \<and> 0 < n \<and>
      data r2 = take n (drop (nat (0x10000 - 0x0FFF8)) (replicate 32 0x41)))"
proof (intro conjI)
  show "intel_split (replicate 32 0x41) 0x0FFF8 16 True True None =
     Inr [\<lparr>address = 0xFFF8, tag = Some 0, data = replicate 8 0x41, count = 8,
            checksum = Some 0xF9\<rparr>,
          \<lparr>address = 0, tag = Some 4, data = [0, 1], count = 2, checksum = Some 0xF9\<rparr>,
          \<lparr>address = 0x10000, tag = Some 0, data = replicate 16 0x41, count = 16,
            checksum = Some 0xE0\<rparr>,
          \<lparr>address = 0x10010, tag = Some 0, data = replicate 8 0x41, count = 8,
            checksum = Some 0xE0\<rparr>,
          \<lparr>address = 0, tag = Some 4, data = [0, 0], count = 2, checksum = Some 0xFA\<rparr>,
          \<lparr>address = 0, tag = Some 5, data = [0, 0, 0xFF, 0xF8], count = 4,
            checksum = Some 0\<rparr>,
          \<lparr>address = 0, tag = Some 1, data = [], count = 0, checksum = Some 0xFF\<rparr>]"
    by code_simp
  show "intel_split (replicate 32 0x41) 0x0FFF8 16 False True None =
     Inr [\<lparr>address = 0xFFF8, tag = Some 0, data = replicate 8 0x41, count = 8,
            checksum = Some 0xF9\<rparr>,
          \<lparr>address = 0, tag = Some 4, data = [0, 1], count = 2, checksum = Some 0xF9\<rparr>,
          \<lparr>address = 0x10000, tag = Some 0, data = replicate 8 0x41, count = 8,
            checksum = Some 0xF0\<rparr>,
          \<lparr>address = 0x10008, tag = Some 0, data = replicate 16 0x41, count = 16,
            checksum = Some 0xD8\<rparr>,
          \<lparr>address = 0, tag = Some 4, data = [0, 0], count = 2, checksum = Some 0xFA\<rparr>,
          \<lparr>address = 0, tag = Some 5, data = [0, 0, 0xFF, 0xF8], count = 4,
            checksum = Some 0\<rparr>,
          \<lparr>address = 0, tag = Some 1, data = [], count = 0, checksum = Some 0xFF\<rparr>]"
    by code_simp
  show "\<exists>pre r1 r2 post n.
      intel_split (replicate 32 0x41) 0x0FFF8 16 False True None =
        Inr (pre @ r1 #
             \<lparr>address = 0, tag = Some 4, data = [0, 1], count = 2, checksum = Some 0xF9\<rparr> #
             r2 # post) \<and>
      (\<forall>r\<in>set pre. tag r = Some 0) \<and>
      concat (map data pre) @ data r1 = take (nat (0x10000 - 0x0FFF8)) (replicate 32 0x41) \<and>
      tag r1 = Some 0 \<and> data r1 \<noteq> [] \<and> address r1 + int (length (data r1)) = 0x10000 \<and>
      tag r2 = Some 0 \<and> address r2 = 0x10000 \<and> 0 < n \<and>
      data r2 = take n (drop (nat (0x10000 - 0x0FFF8)) (replicate 32 0x41))"
    by (rule intel_split_64k_crossing) simp_all
qed

section \<open>From a buffer to records and back to one block\<close>

lemma mos_split_loop_blocks:
  "contiguous a (map record_block (filter mos_is_data (mos_split_loop a chunks))) \<and>
   concat (map data (filter mos_is_data (mos_split_loop a chunks))) = concat chunks"
proof (induction chunks arbitrary: a)
  case Nil
  show ?case by simp
next
  case (Cons c chunks)
  show ?case
    using Cons.IH [of "a + int (length c)"]
    by (cases "c = []")
       (simp_all add: mos_build_data_def mos_init_def mos_is_data_def record_block_def
          block_endex_def split: checksum_arg.splits)
qed

lemma mos_split_ok:
  assumes "0 \<le> addr" "addr < 2 ^ 16" "addr + int (length dat) \<le> 2 ^ 16"
    "0 < columns" "columns < 256"
  shows "\<exists>records. mos_split dat addr columns align standalone = Inr records \<and>
     contiguous addr (map record_block (filter mos_is_data records)) \<and>
     concat (map data (filter mos_is_data records)) = dat"
proof -
  define chunks where "chunks = chop dat columns (if align then addr mod columns else 0)"
  have cc: "concat chunks = dat" using assms(4) by (simp add: chunks_def concat_chop)
  define out where "out = mos_split_loop addr chunks @
     (if standalone then [mos_build_terminator (int (length chunks))] else [])"
  have eq: "mos_split dat addr columns align standalone = Inr out"
    using assms by (simp add: mos_split_def Let_def chunks_def [symmetric] out_def)
  have "\<not> mos_is_data (mos_build_terminator n)" for n
    by (simp add: mos_build_terminator_def mos_init_def mos_is_data_def)
  then have "filter mos_is_data out = filter mos_is_data (mos_split_loop addr chunks)"
    by (simp add: out_def)
  then show ?thesis using eq mos_split_loop_blocks [of addr chunks] cc by simp
qed

lemma motorola_compute_count_ok:
  assumes "0 \<le> t" "t \<le> 9" "tag r = Some t"
  shows "\<exists>n. motorola_compute_count r = Inr n \<and>
      int (length (data r)) + 1 \<le> n \<and> n \<le> int (length (data r)) + 5"
proof -
  have "t = 0 \<or> t = 1 \<or> t = 2 \<or> t = 3 \<or> t = 4 \<or> t = 5 \<or> t = 6 \<or> t = 7 \<or> t = 8 \<or> t = 9"
    using assms(1,2) by presburger
  then show ?thesis
    using assms(3)
    by (auto simp: motorola_compute_count_def tuple_get_def TAG_TO_ADDRESS_LENGTH_def)
qed

lemma motorola_compute_checksum_ok:
  assumes "0 \<le> count r" "count r < 256" "0 \<le> address r" "address r < 2 ^ 64"
  shows "\<exists>c. motorola_compute_checksum r = Inr c"
  using assms
  by (simp add: motorola_compute_checksum_def pack_BL_def native_long_bytes_def Let_def)

lemma motorola_init_ok:
  assumes "0 \<le> t" "t \<le> 9" "length d \<le> 250" "0 \<le> a" "a < 2 ^ 64"
  shows "\<exists>r. motorola_init a t d Ellipsis = Inr r \<and> address r = a \<and> tag r = Some t \<and>
    data r = d"
proof -
  let ?r0 = "\<lparr>address = a, tag = Some t, data = d, count = 0, checksum = None\<rparr>"
  have "tag ?r0 = Some t" by simp
  from motorola_compute_count_ok [OF assms(1,2) this]
  obtain n where n: "motorola_compute_count ?r0 = Inr n" "int (length d) + 1 \<le> n"
    "n \<le> int (length d) + 5"
    by auto
  have nb: "0 \<le> n" "n < 256" using n(2,3) assms(3) by linarith+
  have "\<exists>c. motorola_compute_checksum (?r0\<lparr>count := n\<rparr>) = Inr c"
    by (rule motorola_compute_checksum_ok) (use nb assms(4,5) in simp_all)
  then obtain c where c: "motorola_compute_checksum (?r0\<lparr>count := n\<rparr>) = Inr c" by blast
  have "motorola_init a t d Ellipsis = Inr (?r0\<lparr>count := n, checksum := Some c\<rparr>)"
    using assms(1,2) n(1) c by (simp add: motorola_init_def motorola_TAG_TYPE_def)
  then show ?thesis by simp
qed

lemma motorola_split_loop_ok:
  assumes "t = 1 \<or> t = 2 \<or> t = 3" "0 \<le> a" "a + int (length (concat chunks)) \<le> 2 ^ 32"
    "\<forall>c\<in>set chunks. length c \<le> 250"
  shows "\<exists>records. motorola_split_loop a t chunks = Inr records \<and>
     (\<forall>r\<in>set records. motorola_is_data r) \<and>
     contiguous a (map record_block records) \<and>
     concat (map data records) = concat chunks"
  using assms
proof (induction chunks arbitrary: a)
  case Nil
  show ?case by simp
next
  case (Cons c chunks)
  have t: "0 \<le> t" "t \<le> 9" using Cons.prems(1) by auto
  have a: "a < 2 ^ 64" using Cons.prems(2,3) by simp
  have lc: "length c \<le> 250" using Cons.prems(4) by simp
  from motorola_init_ok [OF t lc Cons.prems(2) a]
  obtain r where r: "motorola_init a t c Ellipsis = Inr r" "address r = a" "tag r = Some t"
    "data r = c"
    by blast
  have br: "motorola_build_data a c (Some t) = Inr r"
    using r(1) Cons.prems(1) by (auto simp: motorola_build_data_def)
  have p2: "0 \<le> a + int (length c)" using Cons.prems(2) by simp
  have p3: "a + int (length c) + int (length (concat chunks)) \<le> 2 ^ 32"
    using Cons.prems(3) by simp
  have p4: "\<forall>c\<in>set chunks. length c \<le> 250" using Cons.prems(4) by simp
  from Cons.IH [OF Cons.prems(1) p2 p3 p4]
  obtain rest where rest: "motorola_split_loop (a + int (length c)) t chunks = Inr rest"
    "\<forall>r\<in>set rest. motorola_is_data r"
    "contiguous (a + int (length c)) (map record_block rest)"
    "concat (map data rest) = concat chunks"
    by blast
  have eq: "motorola_split_loop a t (c # chunks) = Inr (r # rest)"
    using br rest(1) by simp
  have d: "motorola_is_data r" using r(3) Cons.prems(1) by (auto simp: motorola_is_data_def)
  have rb: "record_block r = (a, c)" using r(2,4) by (simp add: record_block_def)
  have "contiguous a (map record_block (r # rest))"
    using rest(3) by (simp add: rb block_endex_def)
  moreover have "concat (map data (r # rest)) = concat (c # chunks)"
    using rest(4) r(4) by simp
  moreover have "\<forall>x\<in>set (r # rest). motorola_is_data x" using d rest(2) by simp
  ultimately show ?case using eq by blast
qed

lemma fit_data_tag_ok:
  assumes "0 \<le> e" "e \<le> 2 ^ 32"
  shows "\<exists>t. fit_data_tag e = Inr t \<and> (t = 1 \<or> t = 2 \<or> t = 3)"
  using assms by (simp add: fit_data_tag_def)

lemma motorola_build_count_ok:
  assumes "0 \<le> n" "n < 2 ^ 24"
  shows "\<exists>r. motorola_build_count n = Inr r \<and> (tag r = Some 5 \<or> tag r = Some 6)"
proof -
  have "\<exists>t. fit_count_tag n = Inr t \<and> (t = 5 \<or> t = 6)"
    using assms by (simp add: fit_count_tag_def)
  then obtain t where t: "fit_count_tag n = Inr t" "t = 5 \<or> t = 6" by blast
  obtain cd where cd: "pack_be32 n = Inr cd" "length cd = 4"
    using assms by (simp add: pack_be32_def)
  have "length (slice_from cd (7 - t)) \<le> length cd" by (simp add: slice_from_def)
  then have l: "length (slice_from cd (7 - t)) \<le> 250" using cd(2) by linarith
  have tb: "0 \<le> t" "t \<le> 9" using t(2) by auto
  from motorola_init_ok [OF tb l, of 0]
  obtain r where "motorola_init 0 t (slice_from cd (7 - t)) Ellipsis = Inr r"
    "tag r = Some t"
    by auto
  then show ?thesis using t cd(1) by (auto simp: motorola_build_count_def)
qed

lemma motorola_build_terminator_ok:
  assumes "t = 1 \<or> t = 2 \<or> t = 3" "0 \<le> s" "s < 2 ^ 32"
  shows "\<exists>r. motorola_build_terminator s t = Inr r \<and>
    (tag r = Some 7 \<or> tag r = Some 8 \<or> tag r = Some 9)"
proof -
  obtain i where i: "tuple_index MATCHING_TAG (Some t) = Inr i" "i = 7 \<or> i = 8 \<or> i = 9"
    using assms(1) by (auto simp: MATCHING_TAG_def)
  have s64: "s < 2 ^ 64" using assms(3) by simp
  have ib: "0 \<le> i" "i \<le> 9" using i(2) by auto
  have l: "length ([]::byte list) \<le> 250" by simp
  from motorola_init_ok [OF ib l assms(2) s64]
  obtain r where "motorola_init s i [] Ellipsis = Inr r" "tag r = Some i"
    by blast
  then show ?thesis using i by (auto simp: motorola_build_terminator_def)
qed

lemma motorola_build_header_ok:
  "\<exists>r. motorola_build_header [] = Inr r \<and> tag r = Some 0"
  using motorola_init_ok [of 0 "[]" 0] by (auto simp: motorola_build_header_def)

lemma motorola_split_ok:
  assumes "0 \<le> addr" "addr < 2 ^ 32" "addr + int (length dat) \<le> 2 ^ 32"
    "0 < columns" "columns < 128"
    "standalone \<longrightarrow>
       int (length (chop dat columns (if align then addr mod columns else 0))) < 2 ^ 24"
  shows "\<exists>records.
     motorola_split dat addr columns align standalone None None [] = Inr records \<and>
     contiguous addr (map record_block (filter motorola_is_data records)) \<and>
     concat (map data (filter motorola_is_data records)) = dat"
proof -
  define chunks where "chunks = chop dat columns (if align then addr mod columns else 0)"
  have cc: "concat chunks = dat" using assms(4) by (simp add: chunks_def concat_chop)
  have cl: "\<forall>c\<in>set chunks. length c \<le> 250"
  proof
    fix c assume "c \<in> set chunks"
    then have "int (length c) \<le> columns"
      unfolding chunks_def using assms(4) by (rule chop_chunk_length [rotated])
    then show "length c \<le> 250" using assms(5) by simp
  qed
  have e0: "0 \<le> addr + int (length dat)" using assms(1) by simp
  from fit_data_tag_ok [OF e0 assms(3)]
  obtain t where t: "fit_data_tag (addr + int (length dat)) = Inr t" "t = 1 \<or> t = 2 \<or> t = 3"
    by blast
  have tot: "addr + int (length (concat chunks)) \<le> 2 ^ 32" using assms(3) cc by simp
  from motorola_split_loop_ok [OF t(2) assms(1) tot cl]
  obtain records where rs: "motorola_split_loop addr t chunks = Inr records"
    "\<forall>r\<in>set records. motorola_is_data r"
    "contiguous addr (map record_block records)" "concat (map data records) = concat chunks"
    by blast
  have fr: "filter motorola_is_data records = records" using rs(2) by simp
  show ?thesis
  proof (cases standalone)
    case False
    then have "motorola_split dat addr columns align standalone None None [] = Inr records"
      using assms(1-5) t(1) rs(1)
      by (simp add: motorola_split_def Let_def chunks_def [symmetric])
    then show ?thesis using fr rs(3,4) cc by simp
  next
    case True
    obtain h where h: "motorola_build_header [] = Inr h" "tag h = Some 0"
      using motorola_build_header_ok by blast
    have "int (length chunks) < 2 ^ 24" using assms(6) True by (simp add: chunks_def)
    then have "\<exists>r. motorola_build_count (int (length chunks)) = Inr r \<and>
        (tag r = Some 5 \<or> tag r = Some 6)"
      by (intro motorola_build_count_ok) simp_all
    then obtain c where c: "motorola_build_count (int (length chunks)) = Inr c"
      "tag c = Some 5 \<or> tag c = Some 6"
      by blast
    obtain e where e: "motorola_build_terminator addr t = Inr e"
      "tag e = Some 7 \<or> tag e = Some 8 \<or> tag e = Some 9"
      using motorola_build_terminator_ok [OF t(2) assms(1,2)] by blast
    have eq: "motorola_split dat addr columns align standalone None None [] =
        Inr ([h] @ records @ [c, e])"
      using assms(1-5) t(1) rs(1) True h(1) c(1) e(1)
      by (simp add: motorola_split_def Let_def chunks_def [symmetric])
    have "filter motorola_is_data ([h] @ records @ [c, e]) = records"
      using fr h(2) c(2) e(2) by (auto simp: motorola_is_data_def)
    then show ?thesis using eq rs(3,4) cc by simp
  qed
qed

lemma length_chop_windows_multiple:
  "length xs = k * w \<Longrightarrow> 0 < w \<Longrightarrow> length (chop_windows xs w) = k"
proof (induction k arbitrary: xs)
  case 0
  then show ?case by (simp add: chop_windows_Nil)
next
  case (Suc k)
  then have ne: "xs \<noteq> []" by auto
  have "length (drop w xs) = k * w" using Suc.prems(1) by simp
  then have "length (chop_windows (drop w xs) w) = k" using Suc.IH Suc.prems(2) by blast
  then show ?case using ne Suc.prems(2) by (simp add: chop_windows_step)
qed

lemma motorola_split_count_overflow:
  assumes "length dat = 2 ^ 24 * 16"
  shows "motorola_split dat 0 16 True True None None [] = Inl (ValueError ''count overflow'')"
proof -
  define chunks where "chunks = chop dat 16 0"
  have ch: "chunks = chop_windows dat 16" by (simp add: chunks_def chop_def)
  have n: "length chunks = 2 ^ 24"
    unfolding ch using assms by (intro length_chop_windows_multiple) simp_all
  have cc: "concat chunks = dat" by (simp add: chunks_def concat_chop)
  have cl: "\<forall>c\<in>set chunks. length c \<le> 250"
  proof
    fix c assume "c \<in> set chunks"
    then have "int (length c) \<le> 16"
      unfolding chunks_def by (intro chop_chunk_length) simp_all
    then show "length c \<le> 250" by simp
  qed
  have ld: "int (length dat) = 2 ^ 28" using assms by simp
  have t: "fit_data_tag (0 + int (length dat)) = Inr 3"
    by (simp add: ld fit_data_tag_def)
  have tot: "0 + int (length (concat chunks)) \<le> 2 ^ 32" by (simp add: cc ld)
  have "(3::int) = 1 \<or> (3::int) = 2 \<or> (3::int) = 3" by simp
  from motorola_split_loop_ok [OF this _ tot cl]
  obtain records where rs: "motorola_split_loop 0 3 chunks = Inr records" by auto
  obtain h where h: "motorola_build_header [] = Inr h"
    using motorola_build_header_ok by blast
  have c: "motorola_build_count (int (length chunks)) = Inl (ValueError ''count overflow'')"
    by (simp add: n motorola_build_count_def fit_count_tag_def)
  show ?thesis
    using t rs h c ld
    by (simp add: motorola_split_def Let_def chunks_def [symmetric])
qed

text \<open>
  C2 (as amended).  For a non-empty buffer \<open>d\<close> and an address \<open>a\<close> with \<open>a + len(d)\<close>
  within the address width of the format (32 bits for Intel and Motorola, 16 bits for
  MOS), and a number of columns that \<open>split\<close> accepts, \<open>list(split(d, address=a))\<close>
  returns records whose \<open>records_to_blocks\<close> is the single block \<open>[(a, d)]\<close>; for a
  standalone Motorola sequence this needs fewer than \<open>2^24\<close> data records, which the
  count record can hold.  The columns, the alignment and the standalone flag are
  arbitrary; the other arguments have their default values.
\<close>

theorem split_records_to_blocks:
  assumes "dat \<noteq> []" "0 \<le> addr"
  shows
    "(addr + int (length dat) \<le> 2 ^ 32 \<and> 0 < columns \<and> columns < 255 \<longrightarrow>
        (\<exists>records. intel_split dat addr columns align standalone None = Inr records \<and>
           records_to_blocks intel_is_data records = [(addr, dat)])) \<and>
     (addr + int (length dat) \<le> 2 ^ 32 \<and> 0 < columns \<and> columns < 128 \<and>
      (standalone \<longrightarrow>
         int (length (chop dat columns (if align then addr mod columns else 0))) < 2 ^ 24) \<longrightarrow>
        (\<exists>records. motorola_split dat addr columns align standalone None None [] = Inr records \<and>
           records_to_blocks motorola_is_data records = [(addr, dat)])) \<and>
     (addr + int (length dat) \<le> 2 ^ 16 \<and> 0 < columns \<and> columns < 256 \<longrightarrow>
        (\<exists>records. mos_split dat addr columns align standalone = Inr records \<and>
           records_to_blocks mos_is_data records = [(addr, dat)]))"
proof (intro conjI impI)
  have pos: "0 < int (length dat)" using assms(1) by simp
  {
    assume h: "addr + int (length dat) \<le> 2 ^ 32 \<and> 0 < columns \<and> columns < 255"
    then have "addr < 2 ^ 32" using pos by linarith
    then have "\<exists>records. intel_split dat addr columns align standalone None = Inr records \<and>
       contiguous addr (map record_block (filter intel_is_data records)) \<and>
       concat (map data (filter intel_is_data records)) = dat \<and>
       (\<forall>r\<in>set records. intel_is_data r \<longrightarrow> within_page r)"
      using h assms(2) by (intro intel_split_ok) simp_all
    then show "\<exists>records. intel_split dat addr columns align standalone None = Inr records \<and>
           records_to_blocks intel_is_data records = [(addr, dat)]"
      using records_to_blocks_contiguous [OF _ _ assms(1)] by blast
  }
  {
    assume h: "addr + int (length dat) \<le> 2 ^ 32 \<and> 0 < columns \<and> columns < 128 \<and>
      (standalone \<longrightarrow>
         int (length (chop dat columns (if align then addr mod columns else 0))) < 2 ^ 24)"
    then have "addr < 2 ^ 32" using pos by linarith
    then have "\<exists>records.
       motorola_split dat addr columns align standalone None None [] = Inr records \<and>
       contiguous addr (map record_block (filter motorola_is_data records)) \<and>
       concat (map data (filter motorola_is_data records)) = dat"
      using h assms(2) by (intro motorola_split_ok) simp_all
    then show "\<exists>records.
           motorola_split dat addr columns align standalone None None [] = Inr records \<and>
           records_to_blocks motorola_is_data records = [(addr, dat)]"
      using records_to_blocks_contiguous [OF _ _ assms(1)] by blast
  }
  {
    assume h: "addr + int (length dat) \<le> 2 ^ 16 \<and> 0 < columns \<and> columns < 256"
    then have "addr < 2 ^ 16" using pos by linarith
    then have "\<exists>records. mos_split dat addr columns align standalone = Inr records \<and>
       contiguous addr (map record_block (filter mos_is_data records)) \<and>
       concat (map data (filter mos_is_data records)) = dat"
      using h assms(2) by (intro mos_split_ok) simp_all
    then show "\<exists>records. mos_split dat addr columns align standalone = Inr records \<and>
           records_to_blocks mos_is_data records = [(addr, dat)]"
      using records_to_blocks_contiguous [OF _ _ assms(1)] by blast
  }
qed

theorem split_records_to_blocks_witness:
  "(\<exists>records. intel_split [0x41, 0x42, 0x43] 0xFFFE 16 True True None = Inr records \<and>
      records_to_blocks intel_is_data records = [(0xFFFE, [0x41, 0x42, 0x43])]) \<and>
   (\<exists>records. motorola_split [0x41, 0x42, 0x43] 0xFFFE 16 True True None None [] = Inr records \<and>
      records_to_blocks motorola_is_data records = [(0xFFFE, [0x41, 0x42, 0x43])]) \<and>
   (\<exists>records. mos_split [0x41, 0x42, 0x43] 0x1234 16 True True = Inr records \<and>
      records_to_blocks mos_is_data records = [(0x1234, [0x41, 0x42, 0x43])])"
proof -
  have n: "int (length (chop [0x41, 0x42, 0x43 :: byte] 16 (if True then 0xFFFE mod 16 else 0)))
      < 2 ^ 24"
    by code_simp
  show ?thesis
    using split_records_to_blocks [of "[0x41, 0x42, 0x43]" "0xFFFE" 16 True True]
          split_records_to_blocks [of "[0x41, 0x42, 0x43]" "0x1234" 16 True True] n
    by simp
qed

text \<open>
  C2 as stated fails for the Motorola format: a buffer of \<open>2^28\<close> bytes at address 0
  lies within 32 bits, is split into \<open>2^24\<close> data records of 16 bytes, and
  \<open>build_count\<close> raises the count overflow.
\<close>

theorem motorola_split_count_overflow_example:
  "0 + int (length (replicate (2 ^ 28) (0x41 :: byte))) \<le> 2 ^ 32 \<and>
   motorola_split (replicate (2 ^ 28) 0x41) 0 16 True True None None []
     = Inl (ValueError ''count overflow'')"
proof -
  have "length (replicate (2 ^ 28) (0x41 :: byte)) = 2 ^ 24 * 16"
    by (simp only: length_replicate) simp
  then have "motorola_split (replicate (2 ^ 28) 0x41) 0 16 True True None None []
     = Inl (ValueError ''count overflow'')"
    by (rule motorola_split_count_overflow)
  moreover have "0 + int (length (replicate (2 ^ 28) (0x41 :: byte))) \<le> 2 ^ 32"
    by (simp only: length_replicate) simp
  ultimately show ?thesis by (rule conjI [rotated])
qed

section \<open>Reading blocks\<close>

lemma fst_le_block_endex: "fst c \<le> block_endex c"
  by (simp add: block_endex_def)

lemma sorted_blocks_Cons:
  "sorted_blocks (b # bs) = ((\<forall>c\<in>set bs. block_endex b \<le> fst c) \<and> sorted_blocks bs)"
proof (induction bs arbitrary: b)
  case Nil
  show ?case by simp
next
  case (Cons c bs)
  have "fst c \<le> block_endex c" by (rule fst_le_block_endex)
  then show ?case using Cons.IH [of c] by auto
qed

lemma byte_at_append:
  "byte_at (xs @ ys) a = (case byte_at xs a of Some v \<Rightarrow> Some v | None \<Rightarrow> byte_at ys a)"
  by (induction xs) auto

lemma covers_Cons: "covers (b # bs) a = (in_block b a \<or> covers bs a)"
  by (simp add: covers_def)

lemma covers_Nil: "covers [] a = False"
  by (simp add: covers_def)

lemma byte_at_Cons:
  "byte_at (b # bs) a = (if in_block b a then Some (snd b ! nat (a - fst b)) else byte_at bs a)"
  by (cases b) (simp add: in_block_def block_endex_def)

lemma byte_at_None: "(byte_at bs a = None) = (\<not> covers bs a)"
proof (induction bs)
  case Nil
  show ?case by (simp add: covers_Nil)
next
  case (Cons b bs)
  show ?case
  proof (cases "in_block b a")
    case True
    then show ?thesis by (simp add: covers_Cons byte_at_Cons)
  next
    case False
    then show ?thesis using Cons.IH by (simp add: covers_Cons byte_at_Cons)
  qed
qed

lemma byte_at_unique:
  assumes "b \<in> set bs" "in_block b a" "\<forall>c\<in>set bs. in_block c a \<longrightarrow> c = b"
  shows "byte_at bs a = Some (snd b ! nat (a - fst b))"
  using assms
proof (induction bs)
  case Nil
  then show ?case by simp
next
  case (Cons c bs)
  show ?case
  proof (cases "in_block c a")
    case True
    have "c \<in> set (c # bs)" by simp
    then have cb: "c = b" using Cons.prems(3) True by blast
    have "byte_at (c # bs) a = Some (snd c ! nat (a - fst c))"
      using True by (simp only: byte_at_Cons if_True)
    then show ?thesis by (simp only: cb)
  next
    case False
    then have "b \<noteq> c" using Cons.prems(2) by blast
    then have bs: "b \<in> set bs" using Cons.prems(1) by simp
    have "\<forall>c\<in>set bs. in_block c a \<longrightarrow> c = b" using Cons.prems(3) by simp
    then have "byte_at bs a = Some (snd b ! nat (a - fst b))"
      using Cons.IH [OF bs Cons.prems(2)] by blast
    then show ?thesis using False by (simp only: byte_at_Cons if_False)
  qed
qed

lemma sorted_blocks_unique:
  assumes "sorted_blocks bs" "b \<in> set bs" "c \<in> set bs" "in_block b a" "in_block c a"
  shows "c = b"
  using assms
proof (induction bs)
  case Nil
  then show ?case by simp
next
  case (Cons x bs)
  have s: "\<forall>y\<in>set bs. block_endex x \<le> fst y" "sorted_blocks bs"
    using Cons.prems(1) by (simp_all add: sorted_blocks_Cons)
  have no: "\<not> in_block y a" if "in_block x a" "y \<in> set bs" for y
  proof -
    have "block_endex x \<le> fst y" using s(1) that(2) by blast
    then show ?thesis using that(1) unfolding in_block_def by linarith
  qed
  consider "b = x" "c = x" | "b = x" "c \<in> set bs" | "b \<in> set bs" "c = x"
    | "b \<in> set bs" "c \<in> set bs"
    using Cons.prems(2,3) by auto
  then show ?case
  proof cases
    case 1
    then show ?thesis by simp
  next
    case 2
    then show ?thesis using no [of c] Cons.prems(4,5) by blast
  next
    case 3
    then show ?thesis using no [of b] Cons.prems(4,5) by blast
  next
    case 4
    then show ?thesis using Cons.IH [OF s(2)] Cons.prems(4,5) by blast
  qed
qed

section \<open>Clearing a range and writing a block\<close>

lemma covers_iff: "covers bs a = (\<exists>b\<in>set bs. in_block b a)"
  by (simp add: covers_def list_ex_iff)

lemma byte_at_piece_before:
  assumes "s0 < s"
  shows "byte_at [(s0, take (nat (s - s0)) items)] a =
         (if s0 \<le> a \<and> a < s \<and> a < s0 + int (length items)
          then Some (items ! nat (a - s0)) else None)"
proof (cases "s0 \<le> a \<and> a < s \<and> a < s0 + int (length items)")
  case True
  then have "nat (a - s0) < nat (s - s0)" by linarith
  then have "take (nat (s - s0)) items ! nat (a - s0) = items ! nat (a - s0)" by simp
  moreover have "a < s0 + int (length (take (nat (s - s0)) items))"
    using True by (auto simp: min_def)
  ultimately show ?thesis using True by simp
next
  case False
  then have "\<not> (s0 \<le> a \<and> a < s0 + int (length (take (nat (s - s0)) items)))"
    using assms by auto
  then show ?thesis using False by simp
qed

lemma byte_at_piece_after:
  assumes "e < s0 + int (length items)"
  shows "byte_at [(max e s0, drop (nat (max e s0 - s0)) items)] a =
         (if s0 \<le> a \<and> e \<le> a \<and> a < s0 + int (length items)
          then Some (items ! nat (a - s0)) else None)"
proof -
  define m where "m = max e s0"
  define D where "D = drop (nat (m - s0)) items"
  have m: "s0 \<le> m" "e \<le> m" "m \<le> s0 + int (length items)" "m = e \<or> m = s0"
    using assms by (auto simp: m_def)
  have "int (length D) = int (length items) - (m - s0)"
    using m(1,3) by (simp add: D_def)
  then have len: "block_endex (m, D) = s0 + int (length items)"
    by (simp add: block_endex_def)
  have goal: "byte_at [(m, D)] a =
         (if s0 \<le> a \<and> e \<le> a \<and> a < s0 + int (length items)
          then Some (items ! nat (a - s0)) else None)"
  proof (cases "s0 \<le> a \<and> e \<le> a \<and> a < s0 + int (length items)")
    case True
    then have ma: "m \<le> a" using m(4) by auto
    have "nat (m - s0) + nat (a - m) = nat (a - s0)" using m(1) ma by linarith
    moreover have "nat (m - s0) + nat (a - m) < length items" using True m(1) ma by linarith
    ultimately have "D ! nat (a - m) = items ! nat (a - s0)"
      by (simp add: D_def)
    moreover have "in_block (m, D) a" using ma True len by (simp add: in_block_def)
    ultimately show ?thesis using True by (simp add: byte_at_Cons)
  next
    case False
    then have "\<not> in_block (m, D) a" using m(1,2) len by (auto simp: in_block_def)
    then show ?thesis using False by (simp add: byte_at_Cons)
  qed
  show ?thesis using goal by (simp only: m_def D_def)
qed

lemma byte_at_clear:
  assumes "s \<le> e"
  shows "byte_at (clear bs s e) a = (if s \<le> a \<and> a < e then None else byte_at bs a)"
proof (induction bs)
  case Nil
  show ?case by simp
next
  case (Cons b bs)
  obtain s0 items where b: "b = (s0, items)" by (cases b)
  define P1 where "P1 = (if s0 < s then [(s0, take (nat (s - s0)) items)] else [])"
  define P2 where "P2 = (if e < s0 + int (length items)
                         then [(max e s0, drop (nat (max e s0 - s0)) items)] else [])"
  define v where "v = Some (items ! nat (a - s0))"
  have c: "clear (b # bs) s e = P1 @ P2 @ clear bs s e"
    by (simp add: b P1_def P2_def)
  have p1: "byte_at P1 a =
      (if s0 \<le> a \<and> a < s \<and> a < s0 + int (length items) then v else None)"
  proof (cases "s0 < s")
    case True
    then show ?thesis using byte_at_piece_before [OF True, of items a]
      by (simp only: P1_def v_def if_True)
  next
    case False
    then have n: "\<not> (s0 \<le> a \<and> a < s \<and> a < s0 + int (length items))" by linarith
    show ?thesis using False by (simp add: P1_def if_not_P [OF n])
  qed
  have p2: "byte_at P2 a =
      (if s0 \<le> a \<and> e \<le> a \<and> a < s0 + int (length items) then v else None)"
  proof (cases "e < s0 + int (length items)")
    case True
    then show ?thesis using byte_at_piece_after [OF True, of a]
      by (simp only: P2_def v_def if_True)
  next
    case False
    then have n: "\<not> (s0 \<le> a \<and> e \<le> a \<and> a < s0 + int (length items))" by linarith
    show ?thesis using False by (simp add: P2_def if_not_P [OF n])
  qed
  have orig: "byte_at (b # bs) a =
      (if s0 \<le> a \<and> a < s0 + int (length items) then v else byte_at bs a)"
    by (simp add: b v_def)
  have step: "byte_at (clear (b # bs) s e) a =
      (case byte_at P1 a of Some w \<Rightarrow> Some w
       | None \<Rightarrow> (case byte_at P2 a of Some w \<Rightarrow> Some w
                   | None \<Rightarrow> byte_at (clear bs s e) a))"
    by (simp only: c byte_at_append)
  consider (inside) "s \<le> a" "a < e"
    | (before) "a < s"
    | (after) "e \<le> a"
    by linarith
  then show ?case
  proof cases
    case inside
    then show ?thesis using assms by (simp add: step p1 p2 Cons.IH)
  next
    case before
    then show ?thesis using assms by (simp add: step p1 p2 Cons.IH orig v_def)
  next
    case after
    then show ?thesis using assms by (simp add: step p1 p2 Cons.IH orig v_def)
  qed
qed

lemma clear_Cons_piece:
  assumes "p \<in> set (clear ((s0, items) # bs) s e)"
  shows "p \<in> set (clear bs s e) \<or>
         (s0 \<le> fst p \<and> block_endex p \<le> s0 + int (length items) \<and>
          (block_endex p \<le> s \<or> e \<le> fst p))"
proof -
  consider (rest) "p \<in> set (clear bs s e)"
    | (p1) "s0 < s" "p = (s0, take (nat (s - s0)) items)"
    | (p2) "e < s0 + int (length items)" "p = (max e s0, drop (nat (max e s0 - s0)) items)"
    using assms by (auto split: if_splits)
  then show ?thesis
  proof cases
    case rest
    then show ?thesis by simp
  next
    case p1
    have "block_endex p = s0 + int (min (length items) (nat (s - s0)))"
      by (simp add: p1(2) block_endex_def)
    then have "block_endex p \<le> s" "block_endex p \<le> s0 + int (length items)"
      using p1(1) by (auto simp: min_def)
    moreover have "fst p = s0" by (simp add: p1(2))
    ultimately show ?thesis by simp
  next
    case p2
    define m where "m = max e s0"
    have m: "s0 \<le> m" "e \<le> m" "m \<le> s0 + int (length items)"
      using p2(1) by (auto simp: m_def)
    have p: "p = (m, drop (nat (m - s0)) items)" by (simp add: p2(2) m_def)
    have "int (length (drop (nat (m - s0)) items)) = int (length items) - (m - s0)"
      using m(1,3) by simp
    then have "block_endex p = s0 + int (length items)"
      by (simp add: p block_endex_def)
    moreover have "fst p = m" by (simp add: p)
    ultimately show ?thesis using m by simp
  qed
qed

lemma clear_pieces:
  assumes "p \<in> set (clear bs s e)"
  shows "(\<exists>c\<in>set bs. fst c \<le> fst p \<and> block_endex p \<le> block_endex c) \<and>
         (block_endex p \<le> s \<or> e \<le> fst p)"
  using assms
proof (induction bs)
  case Nil
  then show ?case by simp
next
  case (Cons b bs)
  obtain s0 items where b: "b = (s0, items)" by (cases b)
  have "p \<in> set (clear ((s0, items) # bs) s e)" using Cons.prems by (simp only: b)
  from clear_Cons_piece [OF this]
  consider (rest) "p \<in> set (clear bs s e)"
    | (here) "s0 \<le> fst p" "block_endex p \<le> s0 + int (length items)"
             "block_endex p \<le> s \<or> e \<le> fst p"
    by blast
  then show ?case
  proof cases
    case rest
    from Cons.IH [OF rest] show ?thesis by auto
  next
    case here
    have "fst b \<le> fst p" "block_endex p \<le> block_endex b"
      using here(1,2) by (simp_all add: b block_endex_def)
    then show ?thesis using here(3) by auto
  qed
qed

lemma sorted_blocks_append:
  "sorted_blocks (xs @ ys) =
     (sorted_blocks xs \<and> sorted_blocks ys \<and>
      (\<forall>x\<in>set xs. \<forall>y\<in>set ys. block_endex x \<le> fst y))"
proof (induction xs)
  case Nil
  show ?case by simp
next
  case (Cons x xs)
  show ?case by (simp only: append_Cons sorted_blocks_Cons Cons.IH) auto
qed

lemma sorted_blocks_clear:
  assumes "s \<le> e" "sorted_blocks bs"
  shows "sorted_blocks (clear bs s e)"
  using assms(2)
proof (induction bs)
  case Nil
  show ?case by simp
next
  case (Cons b bs)
  obtain s0 items where b: "b = (s0, items)" by (cases b)
  define P1 where "P1 = (if s0 < s then [(s0, take (nat (s - s0)) items)] else [])"
  define P2 where "P2 = (if e < s0 + int (length items)
                         then [(max e s0, drop (nat (max e s0 - s0)) items)] else [])"
  have c: "clear (b # bs) s e = P1 @ P2 @ clear bs s e"
    by (simp add: b P1_def P2_def)
  have sb: "\<forall>c\<in>set bs. block_endex b \<le> fst c" "sorted_blocks bs"
    using Cons.prems by (simp_all add: sorted_blocks_Cons)
  have rest: "sorted_blocks (clear bs s e)" using Cons.IH [OF sb(2)] .
  have s1: "sorted_blocks P1" by (simp add: P1_def)
  have s2: "sorted_blocks P2" by (simp add: P2_def)
  have in1: "p \<in> set (clear ((s0, items) # []) s e)" if "p \<in> set P1" for p
    using that by (simp add: P1_def P2_def split: if_splits)
  have in2: "p \<in> set (clear ((s0, items) # []) s e)" if "p \<in> set P2" for p
    using that by (simp add: P1_def P2_def split: if_splits)
  have b1: "fst p = s0 \<and> block_endex p \<le> s \<and> block_endex p \<le> block_endex b"
    if "p \<in> set P1" for p
  proof -
    have p: "s0 < s" "p = (s0, take (nat (s - s0)) items)"
      using that by (simp_all add: P1_def split: if_splits)
    have "block_endex p = s0 + int (min (length items) (nat (s - s0)))"
      by (simp add: p(2) block_endex_def)
    then have "block_endex p \<le> s" "block_endex p \<le> s0 + int (length items)"
      using p(1) by (auto simp: min_def)
    then show ?thesis by (simp add: p(2) b block_endex_def)
  qed
  have b2: "e \<le> fst p \<and> block_endex p \<le> block_endex b" if "p \<in> set P2" for p
  proof -
    from clear_Cons_piece [OF in2 [OF that]]
    have "s0 \<le> fst p \<and> block_endex p \<le> s0 + int (length items) \<and>
          (block_endex p \<le> s \<or> e \<le> fst p)" by simp
    moreover have "e \<le> fst p" using that by (auto simp: P2_def split: if_splits)
    ultimately show ?thesis by (simp add: b block_endex_def)
  qed
  have later: "block_endex b \<le> fst q" if "q \<in> set (clear bs s e)" for q
  proof -
    from clear_pieces [OF that] obtain c where c: "c \<in> set bs" "fst c \<le> fst q" by blast
    have "block_endex b \<le> fst c" using sb(1) c(1) by blast
    then show ?thesis using c(2) by linarith
  qed
  have s23: "sorted_blocks (P2 @ clear bs s e)"
  proof -
    have "\<forall>x\<in>set P2. \<forall>y\<in>set (clear bs s e). block_endex x \<le> fst y"
    proof (intro ballI)
      fix x y assume "x \<in> set P2" "y \<in> set (clear bs s e)"
      then show "block_endex x \<le> fst y" using b2 [of x] later [of y] by linarith
    qed
    then show ?thesis using s2 rest by (simp only: sorted_blocks_append)
  qed
  have "\<forall>x\<in>set P1. \<forall>y\<in>set (P2 @ clear bs s e). block_endex x \<le> fst y"
  proof (intro ballI)
    fix x y assume x: "x \<in> set P1" and "y \<in> set (P2 @ clear bs s e)"
    then consider "y \<in> set P2" | "y \<in> set (clear bs s e)" by auto
    then show "block_endex x \<le> fst y"
    proof cases
      case 1
      then show ?thesis using b1 [OF x] b2 [of y] assms(1) by linarith
    next
      case 2
      then show ?thesis using b1 [OF x] later [of y] by linarith
    qed
  qed
  then have "sorted_blocks (P1 @ P2 @ clear bs s e)"
    using s1 s23 by (subst sorted_blocks_append) blast
  then show ?case by (simp only: c)
qed

lemma set_insert_block: "set (insert_block b bs) = insert b (set bs)"
  by (induction bs) auto

lemma sorted_blocks_insert_block:
  assumes "sorted_blocks bs" "fst b < block_endex b"
    "\<forall>c\<in>set bs. block_endex c \<le> fst b \<or> block_endex b \<le> fst c"
  shows "sorted_blocks (insert_block b bs)"
  using assms(1,3)
proof (induction bs)
  case Nil
  show ?case by simp
next
  case (Cons c bs)
  have sc: "\<forall>y\<in>set bs. block_endex c \<le> fst y" "sorted_blocks bs"
    using Cons.prems(1) by (simp_all add: sorted_blocks_Cons)
  have dc: "block_endex c \<le> fst b \<or> block_endex b \<le> fst c" using Cons.prems(2) by simp
  have drest: "\<forall>y\<in>set bs. block_endex y \<le> fst b \<or> block_endex b \<le> fst y"
    using Cons.prems(2) by simp
  have cle: "fst c \<le> block_endex c" by (rule fst_le_block_endex)
  show ?case
  proof (cases "fst b < fst c")
    case True
    have bc: "block_endex b \<le> fst c" using dc cle True by linarith
    have "\<forall>y\<in>set (c # bs). block_endex b \<le> fst y"
    proof
      fix y assume "y \<in> set (c # bs)"
      then consider "y = c" | "y \<in> set bs" by auto
      then show "block_endex b \<le> fst y"
      proof cases
        case 1
        then show ?thesis using bc by simp
      next
        case 2
        then have "block_endex c \<le> fst y" using sc(1) by blast
        then show ?thesis using bc cle by linarith
      qed
    qed
    then have "sorted_blocks (b # c # bs)"
      using Cons.prems(1) by (subst sorted_blocks_Cons) blast
    then show ?thesis using True by simp
  next
    case False
    have cb: "block_endex c \<le> fst b" using dc False assms(2) by linarith
    have "sorted_blocks (insert_block b bs)" using Cons.IH [OF sc(2) drest] .
    moreover have "\<forall>y\<in>set (insert_block b bs). block_endex c \<le> fst y"
      using cb sc(1) by (simp add: set_insert_block)
    ultimately have "sorted_blocks (c # insert_block b bs)"
      by (subst sorted_blocks_Cons) blast
    then show ?thesis using False by simp
  qed
qed

lemma byte_at_insert_block:
  assumes "\<forall>c\<in>set bs. \<not> (in_block b a \<and> in_block c a)"
  shows "byte_at (insert_block b bs) a =
         (if in_block b a then Some (snd b ! nat (a - fst b)) else byte_at bs a)"
  using assms
proof (induction bs)
  case Nil
  show ?case by (simp add: byte_at_Cons)
next
  case (Cons c bs)
  have dc: "\<not> (in_block b a \<and> in_block c a)" using Cons.prems by simp
  have drest: "\<forall>y\<in>set bs. \<not> (in_block b a \<and> in_block y a)" using Cons.prems by simp
  note IH = Cons.IH [OF drest]
  show ?case
  proof (cases "fst b < fst c")
    case True
    then have "insert_block b (c # bs) = b # c # bs" by simp
    then show ?thesis by (simp only: byte_at_Cons [of b])
  next
    case False
    then have i: "insert_block b (c # bs) = c # insert_block b bs" by simp
    show ?thesis
    proof (cases "in_block c a")
      case True
      then have "\<not> in_block b a" using dc by blast
      then show ?thesis using True by (simp add: i byte_at_Cons)
    next
      case False
      then show ?thesis using IH by (simp add: i byte_at_Cons)
    qed
  qed
qed

lemma in_block_nonempty: "in_block b a \<Longrightarrow> fst b < block_endex b"
  unfolding in_block_def by linarith

lemma empty_not_in_block: "snd b = [] \<Longrightarrow> \<not> in_block b a"
  unfolding in_block_def block_endex_def by simp

lemma byte_at_write_block: "byte_at (write_block acc b) a = byte_at (b # acc) a"
proof (cases "snd b = []")
  case True
  then show ?thesis by (simp add: write_block_def byte_at_Cons empty_not_in_block)
next
  case False
  have le: "fst b \<le> block_endex b" by (rule fst_le_block_endex)
  have "\<forall>c\<in>set (clear acc (fst b) (block_endex b)). \<not> (in_block b a \<and> in_block c a)"
  proof
    fix c assume "c \<in> set (clear acc (fst b) (block_endex b))"
    from clear_pieces [OF this] have "block_endex c \<le> fst b \<or> block_endex b \<le> fst c"
      by blast
    then show "\<not> (in_block b a \<and> in_block c a)" unfolding in_block_def by linarith
  qed
  from byte_at_insert_block [OF this]
  have "byte_at (write_block acc b) a =
        (if in_block b a then Some (snd b ! nat (a - fst b))
         else byte_at (clear acc (fst b) (block_endex b)) a)"
    using False by (simp add: write_block_def)
  also have "\<dots> = (if in_block b a then Some (snd b ! nat (a - fst b)) else byte_at acc a)"
    by (simp add: byte_at_clear [OF le] in_block_def)
  finally show ?thesis by (simp only: byte_at_Cons)
qed

lemma sorted_blocks_write_block:
  assumes "sorted_blocks acc"
  shows "sorted_blocks (write_block acc b)"
proof (cases "snd b = []")
  case True
  then show ?thesis using assms by (simp add: write_block_def)
next
  case False
  have le: "fst b \<le> block_endex b" by (rule fst_le_block_endex)
  have ne: "fst b < block_endex b" using False by (simp add: block_endex_def)
  have "sorted_blocks (clear acc (fst b) (block_endex b))"
    using sorted_blocks_clear [OF le assms] .
  moreover have "\<forall>c\<in>set (clear acc (fst b) (block_endex b)).
                   block_endex c \<le> fst b \<or> block_endex b \<le> fst c"
    using clear_pieces by blast
  ultimately have "sorted_blocks (insert_block b (clear acc (fst b) (block_endex b)))"
    using ne by (intro sorted_blocks_insert_block) assumption+
  then show ?thesis using False by (simp add: write_block_def)
qed

lemma byte_at_foldl_write_block:
  "byte_at (foldl write_block acc bs) a = byte_at (rev bs @ acc) a"
proof (induction bs arbitrary: acc)
  case Nil
  show ?case by simp
next
  case (Cons b bs)
  have "byte_at (foldl write_block acc (b # bs)) a = byte_at (rev bs @ write_block acc b) a"
    using Cons.IH [of "write_block acc b"] by simp
  also have "\<dots> = byte_at (rev bs @ (b # acc)) a"
    by (simp only: byte_at_append byte_at_write_block)
  finally show ?case by simp
qed

lemma sorted_blocks_foldl_write_block:
  "sorted_blocks acc \<Longrightarrow> sorted_blocks (foldl write_block acc bs)"
proof (induction bs arbitrary: acc)
  case Nil
  then show ?case by simp
next
  case (Cons b bs)
  have "sorted_blocks (write_block acc b)" using Cons.prems by (rule sorted_blocks_write_block)
  from Cons.IH [OF this] show ?case by simp
qed

lemma byte_at_union_blocks:
  "byte_at (union_blocks blocks_list) a = byte_at (rev (concat blocks_list)) a"
  by (simp add: union_blocks_def byte_at_foldl_write_block)

lemma sorted_blocks_union_blocks: "sorted_blocks (union_blocks blocks_list)"
  unfolding union_blocks_def by (rule sorted_blocks_foldl_write_block) simp

section \<open>Joining adjacent blocks\<close>

lemma byte_at_join:
  "byte_at ((s, xs @ ys) # rest) a = byte_at ((s, xs) # (s + int (length xs), ys) # rest) a"
proof -
  consider (first) "s \<le> a" "a < s + int (length xs)"
    | (second) "s + int (length xs) \<le> a" "a < s + int (length xs) + int (length ys)"
    | (out) "a < s \<or> s + int (length xs) + int (length ys) \<le> a"
    by linarith
  then show ?thesis
  proof cases
    case first
    then have "nat (a - s) < length xs" by linarith
    then have "(xs @ ys) ! nat (a - s) = xs ! nat (a - s)" by (simp add: nth_append)
    then show ?thesis using first by simp
  next
    case second
    then have "\<not> nat (a - s) < length xs" by linarith
    moreover have "nat (a - s) - length xs = nat (a - (s + int (length xs)))"
      using second by linarith
    ultimately have "(xs @ ys) ! nat (a - s) = ys ! nat (a - (s + int (length xs)))"
      by (simp add: nth_append)
    moreover have "s \<le> a" using second by linarith
    ultimately show ?thesis using second by simp
  next
    case out
    then show ?thesis by auto
  qed
qed

lemma merge_Cons_cases:
  obtains (empty) "items = []" "merge ((start, items) # blocks) = merge blocks"
  | (single) "items \<noteq> []" "merge blocks = []"
      "merge ((start, items) # blocks) = [(start, items)]"
  | (join) items2 rest where "items \<noteq> []"
      "merge blocks = (start + int (length items), items2) # rest"
      "merge ((start, items) # blocks) = (start, items @ items2) # rest"
  | (keep) start2 items2 rest where "items \<noteq> []"
      "merge blocks = (start2, items2) # rest" "start + int (length items) \<noteq> start2"
      "merge ((start, items) # blocks) = (start, items) # merge blocks"
proof (cases "items = []")
  case True
  then show ?thesis using empty by simp
next
  case False
  show ?thesis
  proof (cases "merge blocks")
    case Nil
    then show ?thesis using single False by simp
  next
    case (Cons c rest)
    obtain start2 items2 where c: "c = (start2, items2)" by (cases c)
    show ?thesis
    proof (cases "start + int (length items) = start2")
      case True
      then show ?thesis using join [of items2 rest] False Cons c by simp
    next
      case ne: False
      then show ?thesis using keep [of start2 items2 rest] False Cons c by simp
    qed
  qed
qed

lemma byte_at_merge: "byte_at (merge bs) a = byte_at bs a"
proof (induction bs)
  case Nil
  show ?case by simp
next
  case (Cons b bs)
  obtain start items where b: "b = (start, items)" by (cases b)
  have "byte_at (merge ((start, items) # bs)) a = byte_at ((start, items) # bs) a"
  proof (cases rule: merge_Cons_cases [where items = items and start = start and blocks = bs])
    case empty
    then show ?thesis using Cons.IH by auto
  next
    case single
    then show ?thesis using Cons.IH by simp
  next
    case (join items2 rest)
    have "byte_at (merge ((start, items) # bs)) a =
          byte_at ((start, items) # (start + int (length items), items2) # rest) a"
      by (simp only: join(3) byte_at_join)
    also have "\<dots> = byte_at ((start, items) # merge bs) a" by (simp only: join(2))
    also have "\<dots> = byte_at ((start, items) # bs) a" using Cons.IH by simp
    finally show ?thesis .
  next
    case (keep start2 items2 rest)
    then show ?thesis using Cons.IH by simp
  qed
  then show ?case by (simp only: b)
qed

lemma merge_starts: "p \<in> set (merge bs) \<Longrightarrow> fst p \<in> fst ` set bs"
proof (induction bs arbitrary: p)
  case Nil
  then show ?case by simp
next
  case (Cons b bs)
  obtain start items where b: "b = (start, items)" by (cases b)
  have p: "p \<in> set (merge ((start, items) # bs))" using Cons.prems by (simp only: b)
  have "fst p = start \<or> p \<in> set (merge bs)"
  proof (cases rule: merge_Cons_cases [where items = items and start = start and blocks = bs])
    case empty
    then show ?thesis using p by simp
  next
    case single
    then show ?thesis using p by simp
  next
    case (join items2 rest)
    then show ?thesis using p by auto
  next
    case (keep start2 items2 rest)
    then show ?thesis using p by auto
  qed
  then show ?case using Cons.IH [of p] by (auto simp: b)
qed

lemma sorted_blocks_merge: "sorted_blocks bs \<Longrightarrow> sorted_blocks (merge bs)"
proof (induction bs)
  case Nil
  show ?case by simp
next
  case (Cons b bs)
  obtain start items where b: "b = (start, items)" by (cases b)
  have sb: "\<forall>c\<in>set bs. block_endex b \<le> fst c" "sorted_blocks bs"
    using Cons.prems by (simp_all add: sorted_blocks_Cons)
  have IH: "sorted_blocks (merge bs)" using Cons.IH [OF sb(2)] .
  have later: "block_endex b \<le> fst p" if "p \<in> set (merge bs)" for p
  proof -
    from merge_starts [OF that] obtain c where "c \<in> set bs" "fst c = fst p" by auto
    then show ?thesis using sb(1) by auto
  qed
  have "sorted_blocks (merge ((start, items) # bs))"
  proof (cases rule: merge_Cons_cases [where items = items and start = start and blocks = bs])
    case empty
    then show ?thesis using IH by simp
  next
    case single
    then show ?thesis by simp
  next
    case (join items2 rest)
    have "\<forall>y\<in>set rest. block_endex (start + int (length items), items2) \<le> fst y"
      "sorted_blocks rest"
      using IH by (auto simp only: join(2) sorted_blocks_Cons)
    moreover have "block_endex (start, items @ items2) =
                   block_endex (start + int (length items), items2)"
      by (simp add: block_endex_def)
    ultimately have "sorted_blocks ((start, items @ items2) # rest)"
      by (subst sorted_blocks_Cons) simp
    then show ?thesis by (simp only: join(3))
  next
    case (keep start2 items2 rest)
    have "sorted_blocks (b # merge bs)"
      using IH later by (subst sorted_blocks_Cons) blast
    then show ?thesis by (simp only: keep(4) b)
  qed
  then show ?case by (simp only: b)
qed

lemma byte_at_merge_records_blocks:
  "byte_at (merge_records_blocks data_records) a =
   byte_at (rev (concat (map (map record_block) data_records))) a"
  by (simp only: merge_records_blocks_def byte_at_merge byte_at_union_blocks)

lemma sorted_blocks_merge_records_blocks:
  "sorted_blocks (merge_records_blocks data_records)"
  unfolding merge_records_blocks_def
  by (rule sorted_blocks_merge) (rule sorted_blocks_union_blocks)

section \<open>Merging record sequences: the last writer wins\<close>

lemma covers_append: "covers (xs @ ys) a = (covers xs a \<or> covers ys a)"
  by (auto simp: covers_iff)

lemma covers_rev: "covers (rev xs) a = covers xs a"
  by (simp add: covers_iff)

lemma covers_concat: "covers (concat xss) a = (\<exists>xs\<in>set xss. covers xs a)"
  by (auto simp: covers_iff)

lemma byte_at_rev_sorted:
  assumes "sorted_blocks bs" "b \<in> set bs" "in_block b a"
  shows "byte_at (rev bs) a = Some (snd b ! nat (a - fst b))"
proof -
  have "\<forall>c\<in>set (rev bs). in_block c a \<longrightarrow> c = b"
  proof (intro ballI impI)
    fix c assume "c \<in> set (rev bs)" "in_block c a"
    then have "c \<in> set bs" by simp
    then show "c = b" using sorted_blocks_unique [OF assms(1,2) _ assms(3)] \<open>in_block c a\<close>
      by blast
  qed
  moreover have "b \<in> set (rev bs)" using assms(2) by simp
  ultimately show ?thesis using assms(3) by (intro byte_at_unique) assumption+
qed

lemma byte_at_last_writer:
  assumes "k < length bl" "sorted_blocks (bl ! k)" "b \<in> set (bl ! k)" "in_block b a"
    "\<forall>j. k < j \<and> j < length bl \<longrightarrow> \<not> covers (bl ! j) a"
  shows "byte_at (rev (concat bl)) a = Some (snd b ! nat (a - fst b))"
proof -
  define later where "later = drop (Suc k) bl"
  define earlier where "earlier = take k bl"
  have "bl = earlier @ (bl ! k) # later"
    unfolding earlier_def later_def using assms(1) by (rule id_take_nth_drop)
  then have "concat bl = concat earlier @ (bl ! k) @ concat later"
    by (metis concat.simps(2) concat_append)
  then have r: "rev (concat bl) = rev (concat later) @ rev (bl ! k) @ rev (concat earlier)"
    by simp
  have "\<not> covers xs a" if "xs \<in> set later" for xs
  proof -
    from that obtain n where n: "n < length later" "xs = later ! n"
      by (auto simp: in_set_conv_nth)
    have "Suc k + n < length bl" using n(1) by (simp add: later_def)
    moreover have "xs = bl ! (Suc k + n)" using n assms(1) by (simp add: later_def)
    ultimately show ?thesis using assms(5) by simp
  qed
  then have "\<not> covers (rev (concat later)) a"
    by (simp only: covers_rev covers_concat) blast
  then have none: "byte_at (rev (concat later)) a = None" by (simp add: byte_at_None)
  have some: "byte_at (rev (bl ! k)) a = Some (snd b ! nat (a - fst b))"
    using assms(2,3,4) by (rule byte_at_rev_sorted)
  show ?thesis by (simp add: r byte_at_append none some)
qed

lemma last_covering:
  assumes "\<exists>j::nat. k < j \<and> j < n \<and> P j"
  shows "\<exists>j. k < j \<and> j < n \<and> P j \<and> (\<forall>j'. j < j' \<and> j' < n \<longrightarrow> \<not> P j')"
proof -
  define S where "S = {j. k < j \<and> j < n \<and> P j}"
  have "S \<subseteq> {..<n}" unfolding S_def by auto
  then have fin: "finite S" by (rule finite_subset) simp
  have ne: "S \<noteq> {}" using assms unfolding S_def by blast
  have m: "Max S \<in> S" using fin ne by (rule Max_in)
  have "\<not> P j'" if "Max S < j'" "j' < n" for j'
  proof
    assume "P j'"
    moreover have "k < j'" using m that(1) unfolding S_def by simp
    ultimately have "j' \<in> S" using that(2) unfolding S_def by simp
    then have "j' \<le> Max S" using fin by (rule Max_ge [rotated])
    then show False using that(1) by simp
  qed
  then show ?thesis using m unfolding S_def by blast
qed

lemma covers_records:
  assumes "covers (map record_block records) a"
  shows "\<exists>r i. r \<in> set records \<and> i < length (data r) \<and> address r + int i = a"
proof -
  from assms obtain r where r: "r \<in> set records" "in_block (record_block r) a"
    by (auto simp: covers_iff)
  then have b: "address r \<le> a" "a < address r + int (length (data r))"
    by (simp_all add: in_block_def block_endex_def record_block_def)
  define i where "i = nat (a - address r)"
  have "i < length (data r)" "address r + int i = a" using b by (simp_all add: i_def)
  then show ?thesis using r(1) by blast
qed

lemma merge_records_byte:
  assumes "\<forall>records\<in>set data_records. sorted_blocks (map record_block records)"
    "k < length data_records" "r \<in> set (data_records ! k)" "i < length (data r)"
    "\<forall>j. k < j \<and> j < length data_records \<longrightarrow>
         \<not> covers (map record_block (data_records ! j)) (address r + int i)"
  shows "byte_at (merge_records_blocks data_records) (address r + int i) = Some (data r ! i)"
proof -
  define bl where "bl = map (map record_block) data_records"
  define a where "a = address r + int i"
  have k: "k < length bl" using assms(2) by (simp add: bl_def)
  have nth: "bl ! j = map record_block (data_records ! j)" if "j < length data_records" for j
    using that by (simp add: bl_def)
  have "data_records ! k \<in> set data_records" using assms(2) by simp
  then have s: "sorted_blocks (bl ! k)" using assms(1,2) nth by simp
  have b: "record_block r \<in> set (bl ! k)" using assms(2,3) nth by simp
  have inb: "in_block (record_block r) a"
    using assms(4) by (simp add: in_block_def block_endex_def record_block_def a_def)
  have no: "\<forall>j. k < j \<and> j < length bl \<longrightarrow> \<not> covers (bl ! j) a"
    using assms(5) nth by (simp add: bl_def a_def)
  have "byte_at (rev (concat bl)) a =
        Some (snd (record_block r) ! nat (a - fst (record_block r)))"
    using k s b inb no by (rule byte_at_last_writer)
  then show ?thesis
    by (simp add: byte_at_merge_records_blocks bl_def a_def record_block_def)
qed

text \<open>
  C1.  \<open>merge_records\<close> computes its blocks as \<open>merge(union(...))\<close> of the sequences'
  \<open>(address, data)\<close> pairs.  When every sequence is sorted and non-overlapping, these
  blocks are sorted by start address and non-overlapping, and for byte \<open>i\<close> of a record
  \<open>r\<close> of sequence \<open>k\<close>: if no later sequence covers its address, the blocks hold
  \<open>data r ! i\<close> at that address; if a later sequence does, they hold there the byte of a
  record of the last sequence that covers the address.
\<close>

theorem merge_records_last_writer_wins:
  assumes "\<forall>records\<in>set data_records. sorted_blocks (map record_block records)"
  shows "sorted_blocks (merge_records_blocks data_records) \<and>
    (k < length data_records \<and> r \<in> set (data_records ! k) \<and> i < length (data r) \<longrightarrow>
       (if \<exists>j. k < j \<and> j < length data_records \<and>
               covers (map record_block (data_records ! j)) (address r + int i)
        then \<exists>j r' i'. k < j \<and> j < length data_records \<and>
               r' \<in> set (data_records ! j) \<and> i' < length (data r') \<and>
               address r' + int i' = address r + int i \<and>
               (\<forall>j'. j < j' \<and> j' < length data_records \<longrightarrow>
                  \<not> covers (map record_block (data_records ! j')) (address r + int i)) \<and>
               byte_at (merge_records_blocks data_records) (address r + int i)
                 = Some (data r' ! i')
        else byte_at (merge_records_blocks data_records) (address r + int i)
               = Some (data r ! i)))"
proof (intro conjI impI)
  show "sorted_blocks (merge_records_blocks data_records)"
    by (rule sorted_blocks_merge_records_blocks)
next
  assume kri: "k < length data_records \<and> r \<in> set (data_records ! k) \<and> i < length (data r)"
  define a where "a = address r + int i"
  define n where "n = length data_records"
  define P where "P = (\<lambda>j. covers (map record_block (data_records ! j)) a)"
  define out where "out = merge_records_blocks data_records"
  have goal: "if \<exists>j. k < j \<and> j < n \<and> P j
        then \<exists>j r' i'. k < j \<and> j < n \<and>
               r' \<in> set (data_records ! j) \<and> i' < length (data r') \<and>
               address r' + int i' = a \<and>
               (\<forall>j'. j < j' \<and> j' < n \<longrightarrow> \<not> P j') \<and>
               byte_at out a = Some (data r' ! i')
        else byte_at out a = Some (data r ! i)"
  proof (cases "\<exists>j. k < j \<and> j < n \<and> P j")
    case True
    from last_covering [OF True]
    obtain j where j: "k < j" "j < n" "P j" "\<forall>j'. j < j' \<and> j' < n \<longrightarrow> \<not> P j'"
      by blast
    from covers_records [OF j(3) [unfolded P_def]]
    obtain r' i' where r': "r' \<in> set (data_records ! j)" "i' < length (data r')"
      "address r' + int i' = a"
      by blast
    have "\<forall>j'. j < j' \<and> j' < length data_records \<longrightarrow>
         \<not> covers (map record_block (data_records ! j')) (address r' + int i')"
      using j(4) by (simp only: r'(3) P_def n_def)
    then have "byte_at (merge_records_blocks data_records) (address r' + int i')
               = Some (data r' ! i')"
      using assms j(2) r'(1,2) unfolding n_def by (intro merge_records_byte) assumption+
    then have "byte_at out a = Some (data r' ! i')" by (simp only: r'(3) out_def)
    then have "\<exists>j r' i'. k < j \<and> j < n \<and>
               r' \<in> set (data_records ! j) \<and> i' < length (data r') \<and>
               address r' + int i' = a \<and>
               (\<forall>j'. j < j' \<and> j' < n \<longrightarrow> \<not> P j') \<and>
               byte_at out a = Some (data r' ! i')"
      using j r' by blast
    then show ?thesis using True by (simp only: if_True)
  next
    case False
    then have "\<forall>j. k < j \<and> j < length data_records \<longrightarrow>
         \<not> covers (map record_block (data_records ! j)) (address r + int i)"
      unfolding P_def n_def a_def by blast
    then have "byte_at (merge_records_blocks data_records) (address r + int i)
               = Some (data r ! i)"
      using assms kri by (intro merge_records_byte) simp_all
    then have "byte_at out a = Some (data r ! i)" by (simp only: out_def a_def)
    then show ?thesis using False by (simp only: if_False)
  qed
  then show "if \<exists>j. k < j \<and> j < length data_records \<and>
               covers (map record_block (data_records ! j)) (address r + int i)
        then \<exists>j r' i'. k < j \<and> j < length data_records \<and>
               r' \<in> set (data_records ! j) \<and> i' < length (data r') \<and>
               address r' + int i' = address r + int i \<and>
               (\<forall>j'. j < j' \<and> j' < length data_records \<longrightarrow>
                  \<not> covers (map record_block (data_records ! j')) (address r + int i)) \<and>
               byte_at (merge_records_blocks data_records) (address r + int i)
                 = Some (data r' ! i')
        else byte_at (merge_records_blocks data_records) (address r + int i)
               = Some (data r ! i)"
    unfolding P_def n_def a_def out_def .
qed

theorem merge_records_last_writer_wins_witness:
  "sorted_blocks (merge_records_blocks
     [[\<lparr>address = 0x1000, tag = None, data = [1, 2, 3, 4], count = 4, checksum = None\<rparr>],
      [\<lparr>address = 0x1002, tag = None, data = [9, 8], count = 2, checksum = None\<rparr>]]) \<and>
   byte_at (merge_records_blocks
     [[\<lparr>address = 0x1000, tag = None, data = [1, 2, 3, 4], count = 4, checksum = None\<rparr>],
      [\<lparr>address = 0x1002, tag = None, data = [9, 8], count = 2, checksum = None\<rparr>]])
     0x1001 = Some 2 \<and>
   byte_at (merge_records_blocks
     [[\<lparr>address = 0x1000, tag = None, data = [1, 2, 3, 4], count = 4, checksum = None\<rparr>],
      [\<lparr>address = 0x1002, tag = None, data = [9, 8], count = 2, checksum = None\<rparr>]])
     0x1002 = Some 9"
proof -
  define rA :: hexrecord
    where "rA = \<lparr>address = 0x1000, tag = None, data = [1, 2, 3, 4], count = 4, checksum = None\<rparr>"
  define rB :: hexrecord
    where "rB = \<lparr>address = 0x1002, tag = None, data = [9, 8], count = 2, checksum = None\<rparr>"
  have h: "\<forall>records\<in>set [[rA], [rB]]. sorted_blocks (map record_block records)"
    by simp
  have cA: "\<not> (\<exists>j. 0 < j \<and> j < length [[rA], [rB]] \<and>
               covers (map record_block ([[rA], [rB]] ! j)) (address rA + int 1))"
    by (auto simp: less_Suc_eq covers_def in_block_def block_endex_def record_block_def
          rA_def rB_def)
  have cB: "\<not> (\<exists>j. 1 < j \<and> j < length [[rA], [rB]] \<and>
               covers (map record_block ([[rA], [rB]] ! j)) (address rB + int 0))"
    by auto
  have pA: "0 < length [[rA], [rB]] \<and> rA \<in> set ([[rA], [rB]] ! 0) \<and> 1 < length (data rA)"
    by (simp add: rA_def)
  have pB: "1 < length [[rA], [rB]] \<and> rB \<in> set ([[rA], [rB]] ! 1) \<and> 0 < length (data rB)"
    by (simp add: rB_def)
  have s: "sorted_blocks (merge_records_blocks [[rA], [rB]])"
    using merge_records_last_writer_wins [OF h, THEN conjunct1] .
  have a: "byte_at (merge_records_blocks [[rA], [rB]]) (address rA + int 1)
           = Some (data rA ! 1)"
    using merge_records_last_writer_wins [OF h, of 0 rA 1, THEN conjunct2, THEN mp, OF pA]
    by (simp only: if_not_P [OF cA])
  have b: "byte_at (merge_records_blocks [[rA], [rB]]) (address rB + int 0)
           = Some (data rB ! 0)"
    using merge_records_last_writer_wins [OF h, of 1 rB 0, THEN conjunct2, THEN mp, OF pB]
    by (simp only: if_not_P [OF cB])
  have a': "byte_at (merge_records_blocks [[rA], [rB]]) 0x1001 = Some 2"
    using a by (simp add: rA_def)
  have b': "byte_at (merge_records_blocks [[rA], [rB]]) 0x1002 = Some 9"
    using b by (simp add: rB_def)
  show ?thesis using s a' b' unfolding rA_def rB_def by (intro conjI)
qed

section \<open>Digits and fixed-width fields\<close>

lemma hex_digit_table:
  "\<forall>d\<in>set [0..<16]. hex_value (hex_digit d) = Some d"
  by code_simp

lemma hex_value_hex_digit: "d < 16 \<Longrightarrow> hex_value (hex_digit d) = Some d"
  using hex_digit_table by simp

lemma is_digit_hex_digit: "d < base \<Longrightarrow> base \<le> 16 \<Longrightarrow> is_digit base (hex_digit d)"
  by (simp add: is_digit_def hex_value_hex_digit)

lemma space_table:
  "\<forall>c\<in>set ''0123456789ABCDEFabcdef''. \<not> is_space c"
  by code_simp

lemma space_table_marks:
  "\<not> is_space CHR '':'' \<and> \<not> is_space CHR '';'' \<and> \<not> is_space CHR ''S''"
  by code_simp

lemma hex_value_dom: "hex_value c = Some v \<Longrightarrow> c \<in> set ''0123456789ABCDEFabcdef''"
  unfolding hex_value_def by (drule map_of_SomeD) (auto dest: set_zip_leftD)

lemma is_digit_not_space: "is_digit base c \<Longrightarrow> \<not> is_space c"
proof -
  assume "is_digit base c"
  then obtain v where "hex_value c = Some v" by (auto simp: is_digit_def split: option.splits)
  then have "c \<in> set ''0123456789ABCDEFabcdef''" by (rule hex_value_dom)
  then show ?thesis using space_table by blast
qed

lemma is_digit_mono: "is_digit 10 c \<Longrightarrow> is_digit 16 c"
  by (auto simp: is_digit_def split: option.splits)

lemma dropWhile_hd: "xs \<noteq> [] \<Longrightarrow> \<not> P (hd xs) \<Longrightarrow> dropWhile P xs = xs"
  by (cases xs) simp_all

lemma strip_id:
  assumes "s \<noteq> []" "\<not> is_space (hd s)" "\<not> is_space (last s)"
  shows "strip s = s"
proof -
  have 1: "dropWhile is_space s = s" using assms(1,2) by (rule dropWhile_hd)
  have "rev s \<noteq> []" "\<not> is_space (hd (rev s))" using assms(1,3) by (simp_all add: hd_rev)
  then have 2: "dropWhile is_space (rev s) = rev s" by (rule dropWhile_hd)
  show ?thesis by (simp add: strip_def 1 2)
qed

lemma digits_nonempty: "digits base n \<noteq> []"
  by (subst digits.simps) simp

lemma digits_all:
  "2 \<le> base \<Longrightarrow> base \<le> 16 \<Longrightarrow> list_all (is_digit base) (digits base n)"
proof (induction base n rule: digits.induct)
  case (1 base n)
  show ?case
  proof (cases "n < base")
    case True
    then have "digits base n = [hex_digit n]" by (subst digits.simps) simp
    then show ?thesis using True "1.prems" by (simp add: is_digit_hex_digit)
  next
    case False
    then have c: "\<not> (n < base \<or> base < 2)" using "1.prems" by simp
    have d: "digits base n = digits base (n div base) @ [hex_digit (n mod base)]"
      using c by (subst digits.simps) simp
    have "n mod base < base" using "1.prems" by simp
    then have "is_digit base (hex_digit (n mod base))"
      using "1.prems" by (simp add: is_digit_hex_digit)
    then show ?thesis using "1.IH" [OF c "1.prems"] by (simp add: d)
  qed
qed

lemma digits_value_snoc:
  "digits_value base (s @ [c]) =
   int base * digits_value base s + (case hex_value c of None \<Rightarrow> 0 | Some v \<Rightarrow> int v)"
  by (simp add: digits_value_def)

lemma digits_value_digits:
  "2 \<le> base \<Longrightarrow> base \<le> 16 \<Longrightarrow> digits_value base (digits base n) = int n"
proof (induction base n rule: digits.induct)
  case (1 base n)
  show ?case
  proof (cases "n < base")
    case True
    then have "digits base n = [hex_digit n]" by (subst digits.simps) simp
    moreover have "hex_value (hex_digit n) = Some n"
      using True "1.prems" by (intro hex_value_hex_digit) simp
    ultimately show ?thesis by (simp add: digits_value_def)
  next
    case False
    then have c: "\<not> (n < base \<or> base < 2)" using "1.prems" by simp
    have d: "digits base n = digits base (n div base) @ [hex_digit (n mod base)]"
      using c by (subst digits.simps) simp
    have "n mod base < base" using "1.prems" by simp
    then have "n mod base < 16" using "1.prems"(2) by linarith
    then have v: "hex_value (hex_digit (n mod base)) = Some (n mod base)"
      by (rule hex_value_hex_digit)
    have "digits_value base (digits base n) =
          int base * int (n div base) + int (n mod base)"
      using "1.IH" [OF c "1.prems"] by (simp add: d digits_value_snoc v)
    also have "\<dots> = int (base * (n div base) + n mod base)"
      by (simp only: of_nat_add of_nat_mult)
    also have "\<dots> = int n" by (simp only: mult_div_mod_eq)
    finally show ?thesis .
  qed
qed

lemma length_digits:
  "2 \<le> base \<Longrightarrow> n < base ^ w \<Longrightarrow> 0 < w \<Longrightarrow> length (digits base n) \<le> w"
proof (induction base n arbitrary: w rule: digits.induct)
  case (1 base n)
  show ?case
  proof (cases "n < base")
    case True
    then have "digits base n = [hex_digit n]" by (subst digits.simps) simp
    then show ?thesis using "1.prems"(3) by simp
  next
    case False
    then have c: "\<not> (n < base \<or> base < 2)" using "1.prems"(1) by simp
    have d: "digits base n = digits base (n div base) @ [hex_digit (n mod base)]"
      using c by (subst digits.simps) simp
    obtain w' where w: "w = Suc w'" using "1.prems"(3) by (cases w) simp_all
    have "w' \<noteq> 0"
    proof
      assume "w' = 0"
      then have "n < base" using "1.prems"(2) w by simp
      then show False using False by simp
    qed
    then have w'pos: "0 < w'" by simp
    have "n < base * base ^ w'" using "1.prems"(2) w by simp
    then have "n div base < base ^ w'"
      using "1.prems"(1) by (simp add: less_mult_imp_div_less mult.commute)
    then have "length (digits base (n div base)) \<le> w'"
      using "1.IH" [OF c "1.prems"(1) _ w'pos] by simp
    then show ?thesis by (simp add: d w)
  qed
qed

lemma digits_value_zeros:
  "digits_value base (replicate k CHR ''0'' @ s) = digits_value base s"
proof -
  have z: "hex_value CHR ''0'' = Some 0" by code_simp
  have "foldl (\<lambda>a c. int base * a + (case hex_value c of None \<Rightarrow> 0 | Some v \<Rightarrow> int v)) 0
          (replicate k CHR ''0'') = 0"
    by (induction k) (simp_all add: z)
  then show ?thesis by (simp add: digits_value_def)
qed

lemma is_digit_zero: "2 \<le> base \<Longrightarrow> is_digit base CHR ''0''"
proof -
  have z: "hex_value CHR ''0'' = Some 0" by code_simp
  show "2 \<le> base \<Longrightarrow> is_digit base CHR ''0''" by (simp add: is_digit_def z)
qed

lemma format_X_nonneg:
  assumes "0 \<le> n" "n < 16 ^ w" "0 < w"
  shows "length (format_X w n) = w"
    and "list_all (is_digit 16) (format_X w n)"
    and "digits_value 16 (format_X w n) = n"
    and "int_base 16 (format_X w n) = Inr n"
proof -
  define s where "s = digits 16 (nat n)"
  have f: "format_X w n = replicate (w - length s) CHR ''0'' @ s"
    using assms(1) by (simp add: format_X_def s_def Let_def)
  have "nat n < 16 ^ w" using assms(1,2) by (simp add: nat_less_iff)
  then have len: "length s \<le> w" unfolding s_def using assms(3) by (intro length_digits) simp_all
  show l: "length (format_X w n) = w" using len by (simp add: f)
  have "list_all (is_digit 16) s" unfolding s_def by (rule digits_all) simp_all
  moreover have "list_all (is_digit 16) (replicate (w - length s) CHR ''0'')"
    by (simp add: list_all_iff is_digit_zero)
  ultimately show a: "list_all (is_digit 16) (format_X w n)" by (simp add: f)
  have "digits_value 16 s = int (nat n)" unfolding s_def by (rule digits_value_digits) simp_all
  then show v: "digits_value 16 (format_X w n) = n"
    using assms(1) by (simp add: f digits_value_zeros)
  have "format_X w n \<noteq> []" using l assms(3) by auto
  then show "int_base 16 (format_X w n) = Inr n" using a v by (simp add: int_base_def)
qed

lemma drop_format_X:
  assumes "0 \<le> n" "n < 16 ^ w'" "0 < w'" "w' \<le> w"
  shows "drop (w - w') (format_X w n) = format_X w' n"
proof -
  define s where "s = digits 16 (nat n)"
  have "nat n < 16 ^ w'" using assms(1,2) by (simp add: nat_less_iff)
  then have len: "length s \<le> w'" unfolding s_def using assms(3) by (intro length_digits) simp_all
  have f: "format_X w n = replicate (w - length s) CHR ''0'' @ s"
    "format_X w' n = replicate (w' - length s) CHR ''0'' @ s"
    using assms(1) by (simp_all add: format_X_def s_def Let_def)
  have "w - w' \<le> w - length s" using len by simp
  moreover have "w - length s - (w - w') = w' - length s" using len assms(4) by simp
  ultimately show ?thesis by (simp add: f)
qed

lemma format_d_digit:
  assumes "0 \<le> t" "t \<le> 9"
  shows "format_d t = [hex_digit (nat t)]" "int_base 10 (format_d t) = Inr t"
    "is_digit 10 (hex_digit (nat t))"
proof -
  have lt: "nat t < 10" using assms by simp
  then have "digits 10 (nat t) = [hex_digit (nat t)]" by (subst digits.simps) simp
  then show f: "format_d t = [hex_digit (nat t)]" using assms(1) by (simp add: format_d_def)
  show d: "is_digit 10 (hex_digit (nat t))" using lt by (intro is_digit_hex_digit) simp_all
  have "nat t < 16" using lt by simp
  then have "hex_value (hex_digit (nat t)) = Some (nat t)" by (rule hex_value_hex_digit)
  then have "digits_value 10 [hex_digit (nat t)] = t"
    using assms(1) by (simp add: digits_value_def)
  then show "int_base 10 (format_d t) = Inr t" using d by (simp add: f int_base_def)
qed

lemma length_hexlify: "length (hexlify bs) = 2 * length bs"
  by (induction bs) (simp_all add: hexlify_def)

lemma hexlify_Cons:
  "hexlify (b # bs) = hex_digit (unat b div 16) # hex_digit (unat b mod 16) # hexlify bs"
  by (simp add: hexlify_def)

lemma byte_nibbles: "unat (b :: byte) div 16 < 16" "unat b mod 16 < 16"
proof -
  have "unat b < 2 ^ LENGTH(8)" by (rule unsigned_less)
  then have "unat b < 256" by simp
  then show "unat b div 16 < 16" by simp
  show "unat b mod 16 < 16" by simp
qed

lemma hexlify_all: "list_all (is_digit 16) (hexlify bs)"
proof (induction bs)
  case Nil
  show ?case by (simp add: hexlify_def)
next
  case (Cons b bs)
  have "is_digit 16 (hex_digit (unat b div 16))" "is_digit 16 (hex_digit (unat b mod 16))"
    using byte_nibbles [of b] by (simp_all add: is_digit_hex_digit)
  then show ?case using Cons.IH by (simp add: hexlify_Cons)
qed

lemma unhexlify_hexlify: "unhexlify (hexlify bs) = Inr bs"
proof (induction bs)
  case Nil
  show ?case by (simp add: hexlify_def)
next
  case (Cons b bs)
  have h: "hex_value (hex_digit (unat b div 16)) = Some (unat b div 16)"
    "hex_value (hex_digit (unat b mod 16)) = Some (unat b mod 16)"
    using byte_nibbles [of b] by (simp_all add: hex_value_hex_digit)
  have "16 * (unat b div 16) + unat b mod 16 = unat b" by (rule mult_div_mod_eq)
  then have "(of_nat (16 * (unat b div 16) + unat b mod 16) :: byte) = b" by simp
  then show ?case using Cons.IH by (simp add: hexlify_Cons h)
qed

section \<open>From a record to its text and back\<close>

lemma strip_line:
  assumes "\<not> is_space c" "E \<noteq> []" "list_all (is_digit 16) E"
  shows "strip (c # M @ E) = c # M @ E"
proof -
  have "last (c # M @ E) = last E" using assms(2) by simp
  moreover have "last E \<in> set E" using assms(2) by simp
  ultimately have "is_digit 16 (last (c # M @ E))" using assms(3) by (simp add: list_all_iff)
  then have "\<not> is_space (last (c # M @ E))" by (rule is_digit_not_space)
  moreover have "\<not> is_space (hd (c # M @ E))" using assms(1) by simp
  ultimately show ?thesis by (intro strip_id) simp_all
qed

lemma mos_REGEX_fields:
  assumes "length A = 2" "length B = 4" "length E = 4"
    "list_all (is_digit 16) A" "list_all (is_digit 16) B"
    "list_all (is_digit 16) D" "list_all (is_digit 16) E"
    "even (length D)" "length D \<le> 510"
  shows "mos_REGEX (CHR '';'' # A @ B @ D @ E) = Some (A, B, D, E)"
proof -
  define rest where "rest = A @ B @ D @ E"
  have len: "length rest = 10 + length D" using assms(1-3) by (simp add: rest_def)
  have 1: "take 2 rest = A" using assms(1) by (simp add: rest_def)
  have 2: "take 4 (drop 2 rest) = B" using assms(1,2) by (simp add: rest_def)
  have 3: "take (length D) (drop 6 rest) = D" using assms(1,2) by (simp add: rest_def)
  have 4: "drop (6 + length D) rest = E" using assms(1,2) by (simp add: rest_def)
  have hex: "list_all (is_digit 16) rest" using assms(4-7) by (simp add: rest_def)
  have ev: "even (length rest)" using assms(8) len by simp
  have "mos_REGEX (CHR '';'' # rest) = Some (A, B, D, E)"
    using hex ev len assms(9) by (simp add: mos_REGEX_def 1 2 3 4)
  then show ?thesis by (simp only: rest_def)
qed

lemma mos_check_facts:
  assumes "mos_check r = Inr ()"
  shows "0 \<le> address r" "address r < 2 ^ 16" "tag r = None" "0 \<le> count r" "count r < 2 ^ 8"
    "count r = int (length (data r))"
    "case checksum r of None \<Rightarrow> True | Some c \<Rightarrow> 0 \<le> c \<and> c < 2 ^ 16"
  using assms by (simp_all add: mos_check_def split: if_splits option.splits)

lemma mos_compute_checksum_range:
  assumes "0 \<le> address r" "address r < 2 ^ 16"
  shows "0 \<le> mos_compute_checksum r \<and> mos_compute_checksum r < 2 ^ 16"
  using assms by (simp add: mos_compute_checksum_def and_ffff)

lemma mos_round_trip:
  assumes "mos_check r = Inr ()"
  shows "\<exists>r'. mos_parse_record (mos_str r) = Inr r' \<and> Record_eq r' r"
proof -
  note f = mos_check_facts [OF assms]
  define v where "v = (case checksum r of None \<Rightarrow> mos_compute_checksum r | Some c \<Rightarrow> c)"
  have v: "0 \<le> v" "v < 2 ^ 16"
    using f(7) mos_compute_checksum_range [OF f(1,2)]
    by (simp_all add: v_def split: option.splits)
  define A where "A = format_X 2 (count r)"
  define B where "B = format_X 4 (address r)"
  define D where "D = hexlify (data r)"
  define E where "E = format_X 4 v"
  have s: "mos_str r = CHR '';'' # A @ B @ D @ E"
    by (simp add: mos_str_def A_def B_def D_def E_def v_def)
  have c16: "count r < 16 ^ 2" using f(5) by simp
  have a16: "address r < 16 ^ 4" using f(2) by simp
  have v16: "v < 16 ^ 4" using v(2) by simp
  note fa = format_X_nonneg [OF f(4) c16, folded A_def]
  note fb = format_X_nonneg [OF f(1) a16, folded B_def]
  note fe = format_X_nonneg [OF v(1) v16, folded E_def]
  have la: "length A = 2" "list_all (is_digit 16) A" "int_base 16 A = Inr (count r)"
    using fa by simp_all
  have lb: "length B = 4" "list_all (is_digit 16) B" "int_base 16 B = Inr (address r)"
    using fb by simp_all
  have le: "length E = 4" "list_all (is_digit 16) E" "int_base 16 E = Inr v"
    using fe by simp_all
  have ld: "list_all (is_digit 16) D" "length D = 2 * length (data r)"
    "unhexlify D = Inr (data r)"
    by (simp_all add: D_def hexlify_all length_hexlify unhexlify_hexlify)
  have dlen: "even (length D)" "length D \<le> 510" using ld(2) f(5,6) by simp_all
  have ne: "E \<noteq> []" using le(1) by auto
  have "strip (CHR '';'' # (A @ B @ D) @ E) = CHR '';'' # (A @ B @ D) @ E"
    using space_table_marks ne le(2) by (intro strip_line) simp_all
  then have st: "strip (mos_str r) = CHR '';'' # A @ B @ D @ E" by (simp add: s)
  have rx: "mos_REGEX (strip (mos_str r)) = Some (A, B, D, E)"
    unfolding st using la(1) lb(1) le(1) la(2) lb(2) ld(1) le(2) dlen
    by (rule mos_REGEX_fields)
  have p: "mos_parse_record (mos_str r) = Inr (mos_init (address r) None (data r) (Given (Some v)))"
    by (simp add: mos_parse_record_def rx la(3) lb(3) le(3) ld(3) f(6))
  have "Record_eq (mos_init (address r) None (data r) (Given (Some v))) r"
    by (simp add: Record_eq_def mos_init_def f(3))
  then show ?thesis using p by blast
qed

lemma and_ff: "(x::int) AND 0xFF = x mod 256"
proof -
  have "x AND mask 8 = x mod 256"
    by (simp add: take_bit_eq_mask [symmetric] take_bit_eq_mod)
  then show ?thesis by (simp add: mask_eq_exp_minus_1)
qed

lemma xor_ff_range:
  assumes "0 \<le> y" "y < 256"
  shows "0 \<le> (y::int) XOR 0xFF \<and> y XOR 0xFF < 256"
proof -
  have "take_bit 8 y = y" using assms by (simp add: take_bit_int_eq_self)
  moreover have "take_bit 8 (0xFF::int) = 0xFF" by (simp add: take_bit_int_eq_self)
  ultimately have "take_bit 8 (y XOR 0xFF) = y XOR 0xFF" by simp
  moreover have "0 \<le> take_bit 8 (y XOR 0xFF)" by simp
  moreover have "take_bit 8 (y XOR 0xFF) < 2 ^ 8" by (rule take_bit_int_less_exp)
  ultimately show ?thesis by simp
qed

lemma intel_check_facts:
  assumes "intel_check r = Inr ()"
  shows "\<exists>t. tag r = Some t \<and> 0 \<le> t \<and> t \<le> 5" "0 \<le> address r"
    "0 \<le> count r" "count r \<le> 255" "count r = int (length (data r))"
    "case checksum r of None \<Rightarrow> True | Some c \<Rightarrow> 0 \<le> c \<and> c \<le> 255"
proof -
  have b: "base_check intel_compute_checksum r = Inr ()"
    using assms by (simp add: intel_check_def split: sum.splits)
  show "0 \<le> address r" using b by (simp add: base_check_def split: if_splits)
  obtain t where t: "tag r = Some t"
    using b by (cases "tag r") (simp_all add: base_check_def split: if_splits)
  have "intel_TAG_TYPE t = Inr t"
    using assms b t
    by (simp add: intel_check_def intel_TAG_TYPE_def split: sum.splits if_splits)
  then have "0 \<le> t \<and> t \<le> 5" by (simp add: intel_TAG_TYPE_def split: if_splits)
  then show "\<exists>t. tag r = Some t \<and> 0 \<le> t \<and> t \<le> 5" using t by blast
  show "0 \<le> count r" "count r \<le> 255"
    using b t by (simp_all add: base_check_def split: if_splits)
  show "count r = int (length (data r))"
    using assms b by (simp add: intel_check_def intel_compute_count_def split: if_splits)
  show "case checksum r of None \<Rightarrow> True | Some c \<Rightarrow> 0 \<le> c \<and> c \<le> 255"
    using b t by (simp add: base_check_def split: if_splits option.splits)
qed

lemma intel_get_checksum_range:
  assumes "tag r = Some t"
    "case checksum r of None \<Rightarrow> True | Some c \<Rightarrow> 0 \<le> c \<and> c \<le> 255"
  shows "\<exists>c. get_checksum intel_compute_checksum r = Inr c \<and> 0 \<le> c \<and> c < 256"
proof (cases "checksum r")
  case None
  have "\<exists>c. intel_compute_checksum r = Inr c \<and> 0 \<le> c \<and> c < 256"
    using assms(1) by (simp add: intel_compute_checksum_def pack_H_def and_ffff and_ff Let_def)
  then show ?thesis using None by (simp add: get_checksum_def)
next
  case (Some c)
  then show ?thesis using assms(2) by (simp add: get_checksum_def)
qed

lemma intel_REGEX_fields:
  assumes "length A = 2" "length B = 4" "length C = 2" "length E = 2"
    "list_all (is_digit 16) A" "list_all (is_digit 16) B" "list_all (is_digit 16) C"
    "list_all (is_digit 16) D" "list_all (is_digit 16) E"
    "even (length D)" "length D \<le> 510"
  shows "intel_REGEX (CHR '':'' # A @ B @ C @ D @ E) = Some (A, B, C, D, E)"
proof -
  define rest where "rest = A @ B @ C @ D @ E"
  have len: "length rest = 10 + length D" using assms(1-4) by (simp add: rest_def)
  have 1: "take 2 rest = A" using assms(1) by (simp add: rest_def)
  have 2: "take 4 (drop 2 rest) = B" using assms(1,2) by (simp add: rest_def)
  have 3: "take 2 (drop 6 rest) = C" using assms(1-3) by (simp add: rest_def)
  have 4: "take (length D) (drop 8 rest) = D" using assms(1-3) by (simp add: rest_def)
  have 5: "drop (8 + length D) rest = E" using assms(1-3) by (simp add: rest_def)
  have hex: "list_all (is_digit 16) rest" using assms(5-9) by (simp add: rest_def)
  have ev: "even (length rest)" using assms(10) len by simp
  have "intel_REGEX (CHR '':'' # rest) = Some (A, B, C, D, E)"
    using hex ev len assms(11) by (simp add: intel_REGEX_def 1 2 3 4 5)
  then show ?thesis by (simp only: rest_def)
qed

lemma intel_round_trip:
  assumes "intel_check r = Inr ()" "address r < 2 ^ 16"
  shows "\<exists>line r'. intel_str r = Inr line \<and> intel_parse_record line = Inr r' \<and>
           Record_eq r' r"
proof -
  note f = intel_check_facts [OF assms(1)]
  from f(1) obtain t where t: "tag r = Some t" "0 \<le> t" "t \<le> 5" by blast
  from intel_get_checksum_range [OF t(1) f(6)]
  obtain c where c: "get_checksum intel_compute_checksum r = Inr c" "0 \<le> c" "c < 256"
    by blast
  have off: "address r AND 0xFFFF = address r" using f(2) assms(2) by (simp add: and_ffff)
  define A where "A = format_X 2 (int (length (data r)))"
  define B where "B = format_X 4 (address r)"
  define C where "C = format_X 2 t"
  define D where "D = hexlify (data r)"
  define E where "E = format_X 2 c"
  define line where "line = CHR '':'' # A @ B @ C @ D @ E"
  have s: "intel_str r = Inr line"
    by (simp add: intel_str_def assms(1) t(1) c(1) off line_def A_def B_def C_def D_def E_def)
  have n0: "0 \<le> int (length (data r))" by simp
  have n16: "int (length (data r)) < 16 ^ 2" using f(4,5) by simp
  have a16: "address r < 16 ^ 4" using assms(2) by simp
  have t16: "t < 16 ^ 2" using t(3) by simp
  have c16: "c < 16 ^ 2" using c(3) by simp
  note fa = format_X_nonneg [OF n0 n16, folded A_def]
  note fb = format_X_nonneg [OF f(2) a16, folded B_def]
  note fc = format_X_nonneg [OF t(2) t16, folded C_def]
  note fe = format_X_nonneg [OF c(2) c16, folded E_def]
  have la: "length A = 2" "list_all (is_digit 16) A"
    "int_base 16 A = Inr (int (length (data r)))"
    using fa by simp_all
  have lb: "length B = 4" "list_all (is_digit 16) B" "int_base 16 B = Inr (address r)"
    using fb by simp_all
  have lc: "length C = 2" "list_all (is_digit 16) C" "int_base 16 C = Inr t"
    using fc by simp_all
  have le: "length E = 2" "list_all (is_digit 16) E" "int_base 16 E = Inr c"
    using fe by simp_all
  have ld: "list_all (is_digit 16) D" "length D = 2 * length (data r)"
    "unhexlify D = Inr (data r)"
    by (simp_all add: D_def hexlify_all length_hexlify unhexlify_hexlify)
  have dlen: "even (length D)" "length D \<le> 510" using ld(2) f(4,5) by simp_all
  have ne: "E \<noteq> []" using le(1) by auto
  have "strip (CHR '':'' # (A @ B @ C @ D) @ E) = CHR '':'' # (A @ B @ C @ D) @ E"
    using space_table_marks ne le(2) by (intro strip_line) simp_all
  then have st: "strip line = CHR '':'' # A @ B @ C @ D @ E" by (simp add: line_def)
  have rx: "intel_REGEX (strip line) = Some (A, B, C, D, E)"
    unfolding st using la(1) lb(1) lc(1) le(1) la(2) lb(2) lc(2) ld(1) le(2) dlen
    by (rule intel_REGEX_fields)
  have tt: "intel_TAG_TYPE t = Inr t" using t(2,3) by (simp add: intel_TAG_TYPE_def)
  have size: "address r + int (length (data r)) \<le> 2 ^ 32"
    using assms(2) f(4,5) by simp
  have a32: "address r < 2 ^ 32" using assms(2) by simp
  have init: "intel_init (address r) t (data r) (Given (Some c)) =
    Inr \<lparr>address = address r, tag = Some t, data = data r,
         count = int (length (data r)), checksum = Some c\<rparr>"
    using f(2) a32 size by (simp add: intel_init_def tt)
  have p: "intel_parse_record line =
    Inr \<lparr>address = address r, tag = Some t, data = data r,
         count = int (length (data r)), checksum = Some c\<rparr>"
    by (simp add: intel_parse_record_def rx la(3) lb(3) lc(3) le(3) ld(3) tt init)
  have "Record_eq \<lparr>address = address r, tag = Some t, data = data r,
         count = int (length (data r)), checksum = Some c\<rparr> r"
    by (simp add: Record_eq_def t(1))
  then show ?thesis using s p by blast
qed

lemma tag_address_length:
  assumes "0 \<le> t" "t \<le> 9"
  shows "\<exists>al. tuple_get TAG_TO_ADDRESS_LENGTH t = Inr al \<and>
           (al = None \<and> (t = 4 \<or> t = 5 \<or> t = 6) \<or> (\<exists>n. al = Some n \<and> 2 \<le> n \<and> n \<le> 4))"
proof -
  have "t = 0 \<or> t = 1 \<or> t = 2 \<or> t = 3 \<or> t = 4 \<or> t = 5 \<or> t = 6 \<or> t = 7 \<or> t = 8 \<or> t = 9"
    using assms by presburger
  then show ?thesis
    by (auto simp: tuple_get_def TAG_TO_ADDRESS_LENGTH_def)
qed

lemma motorola_check_facts:
  assumes "motorola_check r = Inr ()"
  shows "\<exists>t. tag r = Some t \<and> 0 \<le> t \<and> t \<le> 9 \<and>
           ((t = 0 \<or> t = 4 \<or> t = 5 \<or> t = 6) \<longrightarrow> address r = 0)"
    "0 \<le> address r" "0 \<le> count r" "count r \<le> 255"
    "motorola_compute_count r = Inr (count r)"
    "case checksum r of None \<Rightarrow> True | Some c \<Rightarrow> 0 \<le> c \<and> c \<le> 255"
proof -
  have b: "base_check motorola_compute_checksum r = Inr ()"
    using assms by (simp add: motorola_check_def split: sum.splits)
  show "0 \<le> address r" using b by (simp add: base_check_def split: if_splits)
  obtain t where t: "tag r = Some t"
    using b by (cases "tag r") (simp_all add: base_check_def split: if_splits)
  have rest: "(case motorola_TAG_TYPE t of
                  Inl e \<Rightarrow> Inl e
                | Inr t' \<Rightarrow>
                    if (t' = 0 \<or> t' = 4 \<or> t' = 5 \<or> t' = 6) \<and> address r \<noteq> 0
                      then Inl (ValueError ''address error'')
                    else
                      (case motorola_compute_count r of
                         Inl e \<Rightarrow> Inl e
                       | Inr n \<Rightarrow>
                           if count r \<noteq> n then Inl (ValueError ''count error'')
                           else Inr ())) = Inr ()"
    using assms b t by (simp add: motorola_check_def)
  have tt: "motorola_TAG_TYPE t = Inr t"
    using rest by (simp add: motorola_TAG_TYPE_def split: if_splits)
  then have tr: "0 \<le> t \<and> t \<le> 9" by (simp add: motorola_TAG_TYPE_def split: if_splits)
  have rest2: "(if (t = 0 \<or> t = 4 \<or> t = 5 \<or> t = 6) \<and> address r \<noteq> 0
                      then Inl (ValueError ''address error'')
                    else
                      (case motorola_compute_count r of
                         Inl e \<Rightarrow> Inl e
                       | Inr n \<Rightarrow>
                           if count r \<noteq> n then Inl (ValueError ''count error'')
                           else Inr ())) = Inr ()"
    using rest by (simp add: tt)
  have addr0: "(t = 0 \<or> t = 4 \<or> t = 5 \<or> t = 6) \<longrightarrow> address r = 0"
    using rest2 by (auto split: if_splits)
  show "\<exists>t. tag r = Some t \<and> 0 \<le> t \<and> t \<le> 9 \<and>
           ((t = 0 \<or> t = 4 \<or> t = 5 \<or> t = 6) \<longrightarrow> address r = 0)"
    using t tr addr0 by blast
  show "motorola_compute_count r = Inr (count r)"
    using rest2 by (auto split: if_splits sum.splits)
  show "0 \<le> count r" "count r \<le> 255"
    using b t by (simp_all add: base_check_def split: if_splits)
  show "case checksum r of None \<Rightarrow> True | Some c \<Rightarrow> 0 \<le> c \<and> c \<le> 255"
    using b t by (simp add: base_check_def split: if_splits option.splits)
qed

lemma motorola_get_checksum_range:
  assumes "0 \<le> count r" "count r \<le> 255" "0 \<le> address r" "address r < 2 ^ 64"
    "case checksum r of None \<Rightarrow> True | Some c \<Rightarrow> 0 \<le> c \<and> c \<le> 255"
  shows "\<exists>c. get_checksum motorola_compute_checksum r = Inr c \<and> 0 \<le> c \<and> c < 256"
proof (cases "checksum r")
  case None
  have p: "\<exists>packed. pack_BL (count r) (address r) = Inr packed"
    using assms(1-4) by (simp add: pack_BL_def native_long_bytes_def)
  then obtain packed where packed: "pack_BL (count r) (address r) = Inr packed" by blast
  define cs where "cs = sum_bytes packed + sum_bytes (data r)"
  have "0 \<le> cs AND 0xFF" "cs AND 0xFF < 256" by (simp_all add: and_ff)
  then have "0 \<le> (cs AND 0xFF) XOR 0xFF \<and> (cs AND 0xFF) XOR 0xFF < 256"
    by (rule xor_ff_range)
  moreover have "motorola_compute_checksum r = Inr ((cs AND 0xFF) XOR 0xFF)"
    by (simp add: motorola_compute_checksum_def packed cs_def Let_def)
  ultimately show ?thesis using None by (simp add: get_checksum_def)
next
  case (Some c)
  then show ?thesis using assms(5) by (simp add: get_checksum_def)
qed

lemma motorola_slices:
  assumes "length C = 2" "length A = 2 * k" "length E = 2"
  shows "slice_from (slice_to (c # d # C @ A @ D @ E) 2) 1 = [d]"
    "slice_from (slice_to (c # d # C @ A @ D @ E) 4) 2 = C"
    "slice_from (slice_to (c # d # C @ A @ D @ E) (4 + 2 * int k)) 4 = A"
    "slice_from (slice_to (c # d # C @ A @ D @ E) (- 2)) (4 + 2 * int k) = D"
    "slice_from (c # d # C @ A @ D @ E) (- 2) = E"
    "int (length (c # d # C @ A @ D @ E)) = 6 + 2 * int k + int (length D)"
proof -
  define line where "line = c # d # C @ A @ D @ E"
  have len: "length line = 6 + 2 * k + length D" using assms by (simp add: line_def)
  show "int (length (c # d # C @ A @ D @ E)) = 6 + 2 * int k + int (length D)"
    using len by (simp add: line_def)
  have tk_gen: "take n (xs @ ys) = xs" "drop n (xs @ ys) = ys" if "length xs = n"
    for n and xs ys :: "'a list"
    using that by simp_all
  have t2: "take 2 line = [c, d]" by (simp add: line_def)
  have t4: "take 4 line = c # d # C" using assms(1) by (simp add: line_def)
  have "line = (c # d # C @ A) @ D @ E" by (simp add: line_def)
  moreover have "length (c # d # C @ A) = 4 + 2 * k" using assms(1,2) by simp
  ultimately have tk: "take (4 + 2 * k) line = c # d # C @ A" by (simp only: tk_gen)
  have "line = (c # d # C @ A @ D) @ E" by (simp add: line_def)
  moreover have "length (c # d # C @ A @ D) = 4 + 2 * k + length D" using assms(1,2) by simp
  ultimately have tm: "take (4 + 2 * k + length D) line = c # d # C @ A @ D"
    and dm: "drop (4 + 2 * k + length D) line = E"
    by (simp_all only: tk_gen)
  have "length (c # d # C) = 4" using assms(1) by simp
  then have d4: "drop 4 ((c # d # C) @ A) = A" by (rule tk_gen(2))
  have "length (c # d # C @ A) = 4 + 2 * k" using assms(1,2) by simp
  then have dk: "drop (4 + 2 * k) ((c # d # C @ A) @ D) = D" by (rule tk_gen(2))
  have n1: "nat (4 + 2 * int k) = 4 + 2 * k" by simp
  have n2: "nat (int (length line) - 2) = 4 + 2 * k + length D"
    "nat (int (length line) + - 2) = 4 + 2 * k + length D"
    using len by simp_all
  show "slice_from (slice_to (c # d # C @ A @ D @ E) 2) 1 = [d]"
    unfolding line_def [symmetric] using t2 by (simp add: slice_to_def slice_from_def)
  show "slice_from (slice_to (c # d # C @ A @ D @ E) 4) 2 = C"
    unfolding line_def [symmetric] using t4 by (simp add: slice_to_def slice_from_def)
  show "slice_from (slice_to (c # d # C @ A @ D @ E) (4 + 2 * int k)) 4 = A"
    unfolding line_def [symmetric] using tk d4
    by (simp add: slice_to_def slice_from_def n1)
  show "slice_from (slice_to (c # d # C @ A @ D @ E) (- 2)) (4 + 2 * int k) = D"
    unfolding line_def [symmetric] using tm dk
    by (simp add: slice_to_def slice_from_def n1 n2)
  show "slice_from (c # d # C @ A @ D @ E) (- 2) = E"
    unfolding line_def [symmetric] using dm by (simp add: slice_from_def n2)
qed

lemma motorola_REGEX_fields:
  assumes "is_digit 10 d" "list_all (is_digit 16) (C @ A @ D @ E)"
    "even (length (C @ A @ D @ E))" "8 \<le> length (C @ A @ D @ E)"
    "length (C @ A @ D @ E) \<le> 280"
  shows "motorola_REGEX (CHR ''S'' # d # C @ A @ D @ E)"
  using assms by (simp add: motorola_REGEX_def)

lemma motorola_init_given:
  assumes "0 \<le> t" "t \<le> 9"
  shows "\<exists>r'. motorola_init a t d (Given (Some c)) = Inr r' \<and> address r' = a \<and>
           tag r' = Some t \<and> data r' = d"
proof -
  let ?r0 = "\<lparr>address = a, tag = Some t, data = d, count = 0, checksum = None\<rparr>"
  have "tag ?r0 = Some t" by simp
  from motorola_compute_count_ok [OF assms this]
  obtain n where n: "motorola_compute_count ?r0 = Inr n" by blast
  have "motorola_init a t d (Given (Some c)) = Inr (?r0\<lparr>count := n, checksum := Some c\<rparr>)"
    using assms n by (simp add: motorola_init_def motorola_TAG_TYPE_def)
  then show ?thesis by simp
qed

lemma int_base_zero_prefix:
  assumes "list_all (is_digit 16) A"
  shows "int_base 16 (CHR ''0'' # A) = Inr (digits_value 16 A)"
proof -
  have "digits_value 16 (replicate 1 CHR ''0'' @ A) = digits_value 16 A"
    by (rule digits_value_zeros)
  then have "digits_value 16 (CHR ''0'' # A) = digits_value 16 A" by simp
  moreover have "is_digit 16 CHR ''0''" by (rule is_digit_zero) simp
  ultimately show ?thesis using assms by (simp add: int_base_def)
qed

lemma digits_value_Nil: "digits_value base [] = 0"
  by (simp add: digits_value_def)

lemma motorola_address_text:
  assumes "0 \<le> t" "t \<le> 9" "tag r = Some t" "tuple_get TAG_TO_ADDRESS_LENGTH t = Inr al"
    "al = None \<and> (t = 4 \<or> t = 5 \<or> t = 6) \<or> (\<exists>n. al = Some n \<and> 2 \<le> n \<and> n \<le> 4)"
    "(t = 0 \<or> t = 4 \<or> t = 5 \<or> t = 6) \<longrightarrow> address r = 0"
    "0 \<le> address r" "address_fits_tag r"
  shows "\<exists>k A. (case al of None \<Rightarrow> 0 | Some n \<Rightarrow> n) = int k \<and> k \<le> 4 \<and>
           (case al of None \<Rightarrow> []
            | Some n \<Rightarrow> slice_from (format_X 8 (address r)) (2 * (4 - n))) = A \<and>
           length A = 2 * k \<and> list_all (is_digit 16) A \<and>
           digits_value 16 A = address r \<and> address r < 2 ^ 32"
proof (cases al)
  case None
  then have "address r = 0" using assms(5,6) by auto
  then show ?thesis using None by (simp add: digits_value_Nil)
next
  case (Some n)
  then have n: "2 \<le> n" "n \<le> 4" using assms(5) by auto
  define k where "k = nat n"
  have k: "int k = n" "0 < k" "k \<le> 4" using n by (simp_all add: k_def)
  have fit: "address r < 2 ^ (8 * k)"
    using assms(8) by (simp add: address_fits_tag_def assms(3,4) Some k_def)
  have "(2::int) ^ (8 * k) = 16 ^ (2 * k)"
  proof -
    have "(16::int) ^ (2 * k) = (2 ^ 4) ^ (2 * k)" by simp
    also have "\<dots> = 2 ^ (4 * (2 * k))" by (simp only: power_mult)
    finally show ?thesis by simp
  qed
  then have a16: "address r < 16 ^ (2 * k)" using fit by simp
  have w: "0 < 2 * k" "2 * k \<le> 8" using k by simp_all
  have "nat (2 * (4 - n)) = 8 - 2 * k" using n by (simp add: k_def)
  moreover have "0 \<le> 2 * (4 - n)" using n by simp
  ultimately have "slice_from (format_X 8 (address r)) (2 * (4 - n)) =
      drop (8 - 2 * k) (format_X 8 (address r))"
    by (simp add: slice_from_def)
  also have "\<dots> = format_X (2 * k) (address r)"
    using assms(7) a16 w by (rule drop_format_X)
  finally have A: "slice_from (format_X 8 (address r)) (2 * (4 - n)) =
      format_X (2 * k) (address r)" .
  note fx = format_X_nonneg [OF assms(7) a16 w(1)]
  have "(16::int) ^ (2 * k) \<le> 16 ^ 8" using w(2) by (intro power_increasing) simp_all
  then have a32: "address r < 2 ^ 32" using a16 by simp
  have e1: "(case al of None \<Rightarrow> 0 | Some n \<Rightarrow> n) = int k" by (simp add: Some k(1))
  have e2: "(case al of None \<Rightarrow> []
            | Some n \<Rightarrow> slice_from (format_X 8 (address r)) (2 * (4 - n))) =
            format_X (2 * k) (address r)"
    by (simp only: Some option.case A)
  show ?thesis
    using e1 k(3) e2 fx(1,2,3) a32
    by (intro exI [of _ k] exI [of _ "format_X (2 * k) (address r)"] conjI)
qed

lemma motorola_round_trip:
  assumes "motorola_check r = Inr ()" "address_fits_tag r" "3 \<le> count r" "count r \<le> 139"
  shows "\<exists>line r'. motorola_str r = Inr line \<and> motorola_parse_record line = Inr r' \<and>
           Record_eq r' r"
proof -
  note f = motorola_check_facts [OF assms(1)]
  from f(1) obtain t where t: "tag r = Some t" "0 \<le> t" "t \<le> 9"
    "(t = 0 \<or> t = 4 \<or> t = 5 \<or> t = 6) \<longrightarrow> address r = 0"
    by blast
  from tag_address_length [OF t(2,3)]
  obtain al where al: "tuple_get TAG_TO_ADDRESS_LENGTH t = Inr al"
    "al = None \<and> (t = 4 \<or> t = 5 \<or> t = 6) \<or> (\<exists>n. al = Some n \<and> 2 \<le> n \<and> n \<le> 4)"
    by blast
  from motorola_address_text [OF t(2,3,1) al t(4) f(2) assms(2)]
  obtain k A where k: "(case al of None \<Rightarrow> 0 | Some n \<Rightarrow> n) = int k" "k \<le> 4"
    and A: "(case al of None \<Rightarrow> []
            | Some n \<Rightarrow> slice_from (format_X 8 (address r)) (2 * (4 - n))) = A"
      "length A = 2 * k" "list_all (is_digit 16) A" "digits_value 16 A = address r"
    and a32: "address r < 2 ^ 32"
    by blast
  have cnt: "count r = int k + int (length (data r)) + 1"
    using f(5) by (simp add: motorola_compute_count_def t(1) al(1) k(1))
  have a64: "address r < 2 ^ 64" using a32 by simp
  from motorola_get_checksum_range [OF f(3,4,2) a64 f(6)]
  obtain c where c: "get_checksum motorola_compute_checksum r = Inr c" "0 \<le> c" "c < 256"
    by blast
  define C where "C = format_X 2 (count r)"
  define D where "D = hexlify (data r)"
  define E where "E = format_X 2 c"
  define d where "d = hex_digit (nat t)"
  define line where "line = CHR ''S'' # d # C @ A @ D @ E"
  have ct: "(case al of
               None \<Rightarrow> format_X 2 (int (length (data r)) + 1)
             | Some n \<Rightarrow> format_X 2 (n + int (length (data r)) + 1)) = C"
    using k(1) cnt by (cases al) (simp_all add: C_def)
  note fd = format_d_digit [OF t(2,3), folded d_def]
  have s: "motorola_str r = Inr line"
    by (simp add: motorola_str_def assms(1) t(1) al(1) Let_def ct A(1) c(1) fd(1) line_def
          D_def E_def)
  have n16: "count r < 16 ^ 2" using assms(4) by simp
  have c16: "c < 16 ^ 2" using c(3) by simp
  note fc = format_X_nonneg [OF f(3) n16, folded C_def]
  note fe = format_X_nonneg [OF c(2) c16, folded E_def]
  have lc: "length C = 2" "list_all (is_digit 16) C" "int_base 16 C = Inr (count r)"
    using fc by simp_all
  have le: "length E = 2" "list_all (is_digit 16) E" "int_base 16 E = Inr c"
    using fe by simp_all
  have ld: "list_all (is_digit 16) D" "length D = 2 * length (data r)"
    "unhexlify D = Inr (data r)"
    by (simp_all add: D_def hexlify_all length_hexlify unhexlify_hexlify)
  have ne: "E \<noteq> []" using le(1) by auto
  have "strip (CHR ''S'' # (d # C @ A @ D) @ E) = CHR ''S'' # (d # C @ A @ D) @ E"
    using space_table_marks ne le(2) by (intro strip_line) simp_all
  then have st: "strip line = line" by (simp add: line_def)
  have rest_len: "length (C @ A @ D @ E) = 2 * (k + length (data r) + 2)"
    using lc(1) A(2) ld(2) le(1) by simp
  have lo: "8 \<le> length (C @ A @ D @ E)" using rest_len assms(3) cnt by simp
  have hi: "length (C @ A @ D @ E) \<le> 280" using rest_len assms(4) cnt by simp
  have ev: "even (length (C @ A @ D @ E))" using rest_len by simp
  have hex: "list_all (is_digit 16) (C @ A @ D @ E)" using lc(2) A(3) ld(1) le(2) by simp
  have rx: "motorola_REGEX line"
    unfolding line_def using fd(3) hex ev lo hi by (rule motorola_REGEX_fields)
  note sl = motorola_slices [OF lc(1) A(2) le(1), of "CHR ''S''" d D, folded line_def]
  have s1: "int_base 10 (slice_from (slice_to line 2) 1) = Inr t"
    using fd(1,2) by (simp add: sl(1))
  have s2: "int_base 16 (slice_from (slice_to line 4) 2) = Inr (count r)"
    by (simp add: sl(2) lc(3))
  have ln: "2 * count r = int (length line) - (2 + 2)"
    using sl(6) ld(2) cnt by simp
  have s3: "int_base 16 (CHR ''0'' # slice_from (slice_to line (4 + 2 * int k)) 4) =
            Inr (address r)"
    using int_base_zero_prefix [OF A(3)] A(4) by (simp add: sl(3))
  have s4: "unhexlify (slice_from (slice_to line (- 2)) (4 + 2 * int k)) = Inr (data r)"
    by (simp add: sl(4) ld(3))
  have s5: "int_base 16 (slice_from line (- 2)) = Inr c"
    by (simp add: sl(5) le(3))
  have p: "motorola_parse_record line = motorola_init (address r) t (data r) (Given (Some c))"
    unfolding motorola_parse_record_def Let_def st
    by (simp only: rx s1 s2 ln [symmetric] al(1) k(1) s3 s4 s5 sum.case simp_thms if_False)
  from motorola_init_given [OF t(2,3), of "address r" "data r" c]
  obtain r' where r': "motorola_init (address r) t (data r) (Given (Some c)) = Inr r'"
    "address r' = address r" "tag r' = Some t" "data r' = data r"
    by blast
  have "Record_eq r' r" by (simp add: Record_eq_def r'(2,3,4) t(1))
  then show ?thesis using s p r'(1) by auto
qed

text \<open>
  C3 (as amended).  \<open>parse_record(marshal(r)) == r\<close> holds for every MOS record that
  passes \<open>check()\<close>; for every Intel record that passes \<open>check()\<close> and whose address is
  below \<open>2^16\<close>; and for every Motorola record that passes \<open>check()\<close>, whose address
  fits the address field of its tag and whose count lies between 3 and 139, the range of
  the regular expression.
\<close>

theorem parse_record_marshal_round_trip:
  "(mos_check r = Inr () \<longrightarrow>
      (\<exists>r'. mos_parse_record (mos_str r) = Inr r' \<and> Record_eq r' r)) \<and>
   (intel_check r = Inr () \<and> address r < 2 ^ 16 \<longrightarrow>
      (\<exists>line r'. intel_str r = Inr line \<and> intel_parse_record line = Inr r' \<and>
         Record_eq r' r)) \<and>
   (motorola_check r = Inr () \<and> address_fits_tag r \<and> 3 \<le> count r \<and> count r \<le> 139 \<longrightarrow>
      (\<exists>line r'. motorola_str r = Inr line \<and> motorola_parse_record line = Inr r' \<and>
         Record_eq r' r))"
proof (intro conjI impI)
  assume "mos_check r = Inr ()"
  then show "\<exists>r'. mos_parse_record (mos_str r) = Inr r' \<and> Record_eq r' r"
    by (rule mos_round_trip)
next
  assume "intel_check r = Inr () \<and> address r < 2 ^ 16"
  then show "\<exists>line r'. intel_str r = Inr line \<and> intel_parse_record line = Inr r' \<and>
         Record_eq r' r"
    using intel_round_trip by blast
next
  assume "motorola_check r = Inr () \<and> address_fits_tag r \<and> 3 \<le> count r \<and> count r \<le> 139"
  then show "\<exists>line r'. motorola_str r = Inr line \<and> motorola_parse_record line = Inr r' \<and>
         Record_eq r' r"
    using motorola_round_trip by blast
qed

theorem parse_record_marshal_round_trip_witness:
  "mos_check \<lparr>address = 0x1234, tag = None, data = [0x48, 0x69], count = 2,
              checksum = None\<rparr> = Inr () \<and>
   (\<exists>r'. mos_parse_record
            (mos_str \<lparr>address = 0x1234, tag = None, data = [0x48, 0x69], count = 2,
                      checksum = None\<rparr>) = Inr r' \<and>
         Record_eq r' \<lparr>address = 0x1234, tag = None, data = [0x48, 0x69], count = 2,
                        checksum = None\<rparr>) \<and>
   intel_check \<lparr>address = 0x1234, tag = Some 0, data = [0x48, 0x69], count = 2,
                checksum = None\<rparr> = Inr () \<and>
   (\<exists>line r'.
       intel_str \<lparr>address = 0x1234, tag = Some 0, data = [0x48, 0x69], count = 2,
                  checksum = None\<rparr> = Inr line \<and>
       intel_parse_record line = Inr r' \<and>
       Record_eq r' \<lparr>address = 0x1234, tag = Some 0, data = [0x48, 0x69], count = 2,
                      checksum = None\<rparr>) \<and>
   motorola_check \<lparr>address = 0x1234, tag = Some 1, data = [0x48, 0x69], count = 5,
                   checksum = None\<rparr> = Inr () \<and>
   address_fits_tag \<lparr>address = 0x1234, tag = Some 1, data = [0x48, 0x69], count = 5,
                     checksum = None\<rparr> \<and>
   (\<exists>line r'.
       motorola_str \<lparr>address = 0x1234, tag = Some 1, data = [0x48, 0x69], count = 5,
                     checksum = None\<rparr> = Inr line \<and>
       motorola_parse_record line = Inr r' \<and>
       Record_eq r' \<lparr>address = 0x1234, tag = Some 1, data = [0x48, 0x69], count = 5,
                      checksum = None\<rparr>)"
proof -
  define rM :: hexrecord where
    "rM = \<lparr>address = 0x1234, tag = None, data = [0x48, 0x69], count = 2, checksum = None\<rparr>"
  define rI :: hexrecord where
    "rI = \<lparr>address = 0x1234, tag = Some 0, data = [0x48, 0x69], count = 2, checksum = None\<rparr>"
  define rS :: hexrecord where
    "rS = \<lparr>address = 0x1234, tag = Some 1, data = [0x48, 0x69], count = 5, checksum = None\<rparr>"
  have m: "mos_check rM = Inr ()" unfolding rM_def by code_simp
  have i: "intel_check rI = Inr ()" unfolding rI_def by code_simp
  have ia: "address rI < 2 ^ 16" by (simp add: rI_def)
  have s: "motorola_check rS = Inr ()" unfolding rS_def by code_simp
  have sf: "address_fits_tag rS" unfolding rS_def by code_simp
  have sc: "3 \<le> count rS" "count rS \<le> 139" by (simp_all add: rS_def)
  have 1: "\<exists>r'. mos_parse_record (mos_str rM) = Inr r' \<and> Record_eq r' rM"
    using parse_record_marshal_round_trip [of rM] m by blast
  have 2: "\<exists>line r'. intel_str rI = Inr line \<and> intel_parse_record line = Inr r' \<and>
         Record_eq r' rI"
    using parse_record_marshal_round_trip [of rI] i ia by blast
  have 3: "\<exists>line r'. motorola_str rS = Inr line \<and> motorola_parse_record line = Inr r' \<and>
         Record_eq r' rS"
    using parse_record_marshal_round_trip [of rS] s sf sc by blast
  show ?thesis
    using m 1 i 2 s sf 3 unfolding rM_def rI_def rS_def by (intro conjI)
qed

text \<open>
  C3 as stated fails.  The Intel data record at address \<open>0x12345\<close> passes \<open>check()\<close>;
  its text holds the low 16 bits of the address only, so the parsed record has the address
  \<open>0x2345\<close>.  The Motorola count record with no data passes \<open>check()\<close>; its text has
  two pairs of digits after the tag, fewer than the four that the regular expression
  requires, and \<open>parse_record\<close> raises.
\<close>

theorem round_trip_fails_on_checked_records:
  "intel_build_data 0x12345 [0x41] =
     Inr \<lparr>address = 0x12345, tag = Some 0, data = [0x41], count = 1, checksum = Some 0x56\<rparr> \<and>
   intel_check \<lparr>address = 0x12345, tag = Some 0, data = [0x41], count = 1,
                checksum = Some 0x56\<rparr> = Inr () \<and>
   intel_str \<lparr>address = 0x12345, tag = Some 0, data = [0x41], count = 1,
              checksum = Some 0x56\<rparr> = Inr '':012345004156'' \<and>
   intel_parse_record '':012345004156'' =
     Inr \<lparr>address = 0x2345, tag = Some 0, data = [0x41], count = 1, checksum = Some 0x56\<rparr> \<and>
   \<not> Record_eq
       \<lparr>address = 0x2345, tag = Some 0, data = [0x41], count = 1, checksum = Some 0x56\<rparr>
       \<lparr>address = 0x12345, tag = Some 0, data = [0x41], count = 1, checksum = Some 0x56\<rparr> \<and>
   motorola_init 0 5 [] Ellipsis =
     Inr \<lparr>address = 0, tag = Some 5, data = [], count = 1, checksum = Some 0xFE\<rparr> \<and>
   motorola_check \<lparr>address = 0, tag = Some 5, data = [], count = 1,
                   checksum = Some 0xFE\<rparr> = Inr () \<and>
   motorola_str \<lparr>address = 0, tag = Some 5, data = [], count = 1,
                 checksum = Some 0xFE\<rparr> = Inr ''S501FE'' \<and>
   motorola_parse_record ''S501FE'' = Inl (ValueError ''regex error'')"
proof -
  have m: "(0x12345::int) AND 0xFFFF = 0x2345" by (simp add: and_ffff)
  have k: "intel_compute_checksum
      \<lparr>address = 0x12345, tag = Some 0, data = [0x41], count = 1, checksum = k\<rparr> = Inr 0x56"
    for k
    by (simp add: intel_compute_checksum_def m pack_H_def sum_bytes_def and_ff Let_def
          drop_bit_eq_div)
  have b: "intel_build_data 0x12345 [0x41] =
     Inr \<lparr>address = 0x12345, tag = Some 0, data = [0x41], count = 1, checksum = Some 0x56\<rparr>"
    by (simp add: intel_build_data_def intel_init_def intel_TAG_TYPE_def k)
  have c: "intel_check \<lparr>address = 0x12345, tag = Some 0, data = [0x41], count = 1,
                checksum = Some 0x56\<rparr> = Inr ()"
    by (simp add: intel_check_def base_check_def k intel_compute_count_def intel_TAG_TYPE_def)
  have f: "format_X 2 1 = ''01''" "format_X 4 0x2345 = ''2345''" "format_X 2 0 = ''00''"
    "hexlify [0x41] = ''41''" "format_X 2 0x56 = ''56''"
    by (simp_all add: format_X_def Let_def digits.simps hex_digit_def hexlify_def)
  have s: "intel_str \<lparr>address = 0x12345, tag = Some 0, data = [0x41], count = 1,
              checksum = Some 0x56\<rparr> = Inr '':012345004156''"
    by (simp add: intel_str_def c get_checksum_def m f)
  have p: "intel_parse_record '':012345004156'' =
     Inr \<lparr>address = 0x2345, tag = Some 0, data = [0x41], count = 1, checksum = Some 0x56\<rparr>"
    by code_simp
  have n: "\<not> Record_eq
       \<lparr>address = 0x2345, tag = Some 0, data = [0x41], count = 1, checksum = Some 0x56\<rparr>
       \<lparr>address = 0x12345, tag = Some 0, data = [0x41], count = 1, checksum = Some 0x56\<rparr>"
    by (simp add: Record_eq_def)
  have mi: "motorola_init 0 5 [] Ellipsis =
     Inr \<lparr>address = 0, tag = Some 5, data = [], count = 1, checksum = Some 0xFE\<rparr>"
    by code_simp
  have mc: "motorola_check \<lparr>address = 0, tag = Some 5, data = [], count = 1,
                   checksum = Some 0xFE\<rparr> = Inr ()"
    by code_simp
  have ms: "motorola_str \<lparr>address = 0, tag = Some 5, data = [], count = 1,
                 checksum = Some 0xFE\<rparr> = Inr ''S501FE''"
    by code_simp
  have mp: "motorola_parse_record ''S501FE'' = Inl (ValueError ''regex error'')"
    by code_simp
  show ?thesis using b c s p n mi mc ms mp by (intro conjI)
qed

end
